theory Spec2Isabelle
  imports Main "HOL-Library.Monad_Syntax" "HOL-Library.Multiset" "HOL-Library.Word"
begin

section \<open>The unbounded linked queue (MPMCQueue.hpp)\<close>

subsection \<open>Nodes, pointers and the queue object\<close>

text \<open>
  A pointer to a \<open>listNode\<close> is \<open>None\<close> (the null pointer) or \<open>Some a\<close> for an address
  \<open>a\<close>. The heap maps the addresses of the nodes allocated so far to their contents.
  Nodes are only deleted by the destructor, so during the lifetime of a queue the heap
  only grows: the n-th \<open>new listNode\<close> returns address \<open>n\<close>, and \<open>allocations\<close> counts
  the calls of \<open>new\<close>.
\<close>

type_synonym ptr = "nat option"

record 'a listNode =
  data :: 'a
  nxt :: ptr

record 'a MPMCQueue =
  heap :: "nat \<rightharpoonup> 'a listNode"
  allocations :: nat
  q_head :: ptr
  q_freeListTail :: ptr
  q_tail :: ptr
  q_freeListHead :: ptr

text \<open>
  Every operation returns an \<open>option\<close>: \<open>None\<close> stands for a run that does not return
  normally, either because it dereferences a null or unallocated pointer (undefined
  behaviour in C++) or because the spin loop of \<open>mcDequeue\<close> never leaves.
\<close>

definition new_listNode :: "'a listNode \<Rightarrow> 'a MPMCQueue \<Rightarrow> nat \<times> 'a MPMCQueue" where
  "new_listNode nd s =
     (allocations s,
      s\<lparr>heap := (heap s)(allocations s \<mapsto> nd), allocations := Suc (allocations s)\<rparr>)"

definition deref :: "'a MPMCQueue \<Rightarrow> ptr \<Rightarrow> 'a listNode option" where
  "deref s p = (case p of None \<Rightarrow> None | Some a \<Rightarrow> heap s a)"

definition load_next :: "ptr \<Rightarrow> 'a MPMCQueue \<Rightarrow> ptr option" where
  "load_next p s = map_option nxt (deref s p)"

definition load_data :: "ptr \<Rightarrow> 'a MPMCQueue \<Rightarrow> 'a option" where
  "load_data p s = map_option data (deref s p)"

definition store_next :: "ptr \<Rightarrow> ptr \<Rightarrow> 'a MPMCQueue \<Rightarrow> 'a MPMCQueue option" where
  "store_next p v s =
     (case p of
        None \<Rightarrow> None
      | Some a \<Rightarrow>
          (case heap s a of
             None \<Rightarrow> None
           | Some nd \<Rightarrow> Some (s\<lparr>heap := (heap s)(a \<mapsto> nd\<lparr>nxt := v\<rparr>)\<rparr>)))"

definition store_data :: "ptr \<Rightarrow> 'a \<Rightarrow> 'a MPMCQueue \<Rightarrow> 'a MPMCQueue option" where
  "store_data p v s =
     (case p of
        None \<Rightarrow> None
      | Some a \<Rightarrow>
          (case heap s a of
             None \<Rightarrow> None
           | Some nd \<Rightarrow> Some (s\<lparr>heap := (heap s)(a \<mapsto> nd\<lparr>data := v\<rparr>)\<rparr>)))"

text \<open>The atomic read-modify-write steps on the pointer words.\<close>

definition head_exchange :: "ptr \<Rightarrow> 'a MPMCQueue \<Rightarrow> ptr \<times> 'a MPMCQueue" where
  "head_exchange p s = (q_head s, s\<lparr>q_head := p\<rparr>)"

definition tail_exchange :: "ptr \<Rightarrow> 'a MPMCQueue \<Rightarrow> ptr \<times> 'a MPMCQueue" where
  "tail_exchange p s = (q_tail s, s\<lparr>q_tail := p\<rparr>)"

definition freeListHead_exchange :: "ptr \<Rightarrow> 'a MPMCQueue \<Rightarrow> ptr \<times> 'a MPMCQueue" where
  "freeListHead_exchange p s = (q_freeListHead s, s\<lparr>q_freeListHead := p\<rparr>)"

text \<open>
  \<open>compare_exchange_strong(expected, desired)\<close> on \<open>_freeListTail\<close>: on success the word
  becomes \<open>desired\<close>; on failure \<open>expected\<close> is overwritten with the current value. The
  result is the success flag, the new value of \<open>expected\<close> and the new state.
\<close>

definition freeListTail_compare_exchange ::
  "ptr \<Rightarrow> ptr \<Rightarrow> 'a MPMCQueue \<Rightarrow> bool \<times> ptr \<times> 'a MPMCQueue" where
  "freeListTail_compare_exchange expected desired s =
     (if q_freeListTail s = expected then (True, expected, s\<lparr>q_freeListTail := desired\<rparr>)
      else (False, q_freeListTail s, s))"

subsection \<open>Construction\<close>

text \<open>
  The member initialisers run in declaration order: \<open>_head\<close> gets a new node, \<open>_tail\<close>
  is set to \<open>_head\<close>, \<open>_freeListHead\<close> gets a second new node, and the constructor body
  copies \<open>_freeListHead\<close> into \<open>_freeListTail\<close>. The parameter \<open>d\<close> is the payload of a
  default-constructed node; the queue never reads it.
\<close>

definition MPMCQueue_new :: "'a \<Rightarrow> 'a MPMCQueue" where
  "MPMCQueue_new d =
     (let s0 = \<lparr>heap = Map.empty, allocations = 0, q_head = None, q_freeListTail = None,
                q_tail = None, q_freeListHead = None\<rparr>;
          (h, s1) = new_listNode \<lparr>data = d, nxt = None\<rparr> s0;
          s2 = s1\<lparr>q_head := Some h\<rparr>;
          s3 = s2\<lparr>q_tail := q_head s2\<rparr>;
          (f, s4) = new_listNode \<lparr>data = d, nxt = None\<rparr> s3;
          s5 = s4\<lparr>q_freeListHead := Some f\<rparr>
      in s5\<lparr>q_freeListTail := q_freeListHead s5\<rparr>)"

subsection \<open>The freelist\<close>

definition freeListEnqueue :: "ptr \<Rightarrow> 'a MPMCQueue \<Rightarrow> 'a MPMCQueue option" where
  "freeListEnqueue item s = do {
     s1 \<leftarrow> store_next item None s;
     let (free_list_prev_head, s2) = freeListHead_exchange item s1;
     store_next free_list_prev_head item s2
   }"

text \<open>
  The loop of \<open>freeListTryDequeue\<close>, entered with the current value of the local \<open>node\<close>.
  A failed compare-exchange reloads \<open>node\<close> with the current \<open>_freeListTail\<close>, after
  which (no other thread running) the next compare-exchange succeeds.
\<close>

function freeListTryDequeue_loop :: "ptr \<Rightarrow> 'a MPMCQueue \<Rightarrow> (ptr \<times> 'a MPMCQueue) option" where
  "freeListTryDequeue_loop node s =
     (case load_next node s of
        None \<Rightarrow> None
      | Some None \<Rightarrow> Some (None, s)
      | Some (Some next) \<Rightarrow>
          (case freeListTail_compare_exchange node (Some next) s of
             (True, _, s') \<Rightarrow> Some (node, s')
           | (False, node', s') \<Rightarrow> freeListTryDequeue_loop node' s'))"
  by pat_completeness auto
termination
  by (relation "measure (\<lambda>(node, s). if q_freeListTail s = node then 0 else 1)")
     (auto simp: freeListTail_compare_exchange_def split: if_splits)

definition freeListTryDequeue :: "'a MPMCQueue \<Rightarrow> (ptr \<times> 'a MPMCQueue) option" where
  "freeListTryDequeue s = freeListTryDequeue_loop (q_freeListTail s) s"

definition acquireOrAllocate :: "'a \<Rightarrow> 'a MPMCQueue \<Rightarrow> (nat \<times> 'a MPMCQueue) option" where
  "acquireOrAllocate input s = do {
     (node, s1) \<leftarrow> freeListTryDequeue s;
     (case node of
        None \<Rightarrow> Some (new_listNode \<lparr>data = input, nxt = None\<rparr> s1)
      | Some a \<Rightarrow> do {
          s2 \<leftarrow> store_data node input s1;
          s3 \<leftarrow> store_next node None s2;
          Some (a, s3)
        })
   }"

subsection \<open>Enqueue\<close>

definition spEnqueue :: "'a \<Rightarrow> 'a MPMCQueue \<Rightarrow> 'a MPMCQueue option" where
  "spEnqueue input s = do {
     (node, s1) \<leftarrow> acquireOrAllocate input s;
     s2 \<leftarrow> store_next (q_head s1) (Some node) s1;
     Some (s2\<lparr>q_head := Some node\<rparr>)
   }"

definition mpEnqueue :: "'a \<Rightarrow> 'a MPMCQueue \<Rightarrow> 'a MPMCQueue option" where
  "mpEnqueue input s = do {
     (node, s1) \<leftarrow> acquireOrAllocate input s;
     let (prev_head, s2) = head_exchange (Some node) s1;
     store_next prev_head (Some node) s2
   }"

subsection \<open>Dequeue\<close>

text \<open>
  A dequeue takes the caller's variable \<open>output\<close> by reference; the model takes its
  value and returns the result flag, the value of \<open>output\<close> afterwards, and the state.
\<close>

definition scDequeue :: "'a \<Rightarrow> 'a MPMCQueue \<Rightarrow> (bool \<times> 'a \<times> 'a MPMCQueue) option" where
  "scDequeue output s = do {
     let tail = q_tail s;
     next \<leftarrow> load_next tail s;
     if next = None then Some (False, output, s)
     else do {
       output' \<leftarrow> load_data next s;
       let s1 = s\<lparr>q_tail := next\<rparr>;
       s2 \<leftarrow> freeListEnqueue tail s1;
       Some (True, output', s2)
     }
   }"

text \<open>
  The spin loop of \<open>mcDequeue\<close>: exchange null into \<open>_tail\<close> until the value taken out is
  not null (\<open>yield\<close> changes nothing). It is a partial function: where \<open>_tail\<close> stays null
  the loop does not return, which is the value \<open>None\<close>.
\<close>

partial_function (option) mcDequeue_spin :: "'a MPMCQueue \<Rightarrow> (ptr \<times> 'a MPMCQueue) option" where
  "mcDequeue_spin s =
     (case tail_exchange None s of
        (None, s') \<Rightarrow> mcDequeue_spin s'
      | (Some a, s') \<Rightarrow> Some (Some a, s'))"

declare mcDequeue_spin.simps [code]

definition mcDequeue :: "'a \<Rightarrow> 'a MPMCQueue \<Rightarrow> (bool \<times> 'a \<times> 'a MPMCQueue) option" where
  "mcDequeue output s = do {
     (tail, s1) \<leftarrow> mcDequeue_spin s;
     next \<leftarrow> load_next tail s1;
     if next = None then Some (False, output, snd (tail_exchange tail s1))
     else do {
       output' \<leftarrow> load_data next s1;
       let s2 = s1\<lparr>q_tail := next\<rparr>;
       s3 \<leftarrow> freeListEnqueue tail s2;
       Some (True, output', s3)
     }
   }"

text \<open>
  The same function with other threads at work. \<open>std::this_thread::yield()\<close> gives them
  the processor; \<open>others\<close> is what they do to this queue each time the caller yields, for
  instance the consumer that holds the tail putting it back. With \<open>others\<close> doing nothing
  this is \<open>mcDequeue\<close> above.
\<close>

partial_function (option) mcDequeue_spin_among ::
  "('a MPMCQueue \<Rightarrow> 'a MPMCQueue) \<Rightarrow> 'a MPMCQueue \<Rightarrow> (ptr \<times> 'a MPMCQueue) option" where
  "mcDequeue_spin_among others s =
     (case tail_exchange None s of
        (None, s') \<Rightarrow> mcDequeue_spin_among others (others s')
      | (Some a, s') \<Rightarrow> Some (Some a, s'))"

declare mcDequeue_spin_among.simps [code]

definition mcDequeue_among ::
  "('a MPMCQueue \<Rightarrow> 'a MPMCQueue) \<Rightarrow> 'a \<Rightarrow> 'a MPMCQueue \<Rightarrow>
   (bool \<times> 'a \<times> 'a MPMCQueue) option" where
  "mcDequeue_among others output s = do {
     (tail, s1) \<leftarrow> mcDequeue_spin_among others s;
     next \<leftarrow> load_next tail s1;
     if next = None then Some (False, output, snd (tail_exchange tail s1))
     else do {
       output' \<leftarrow> load_data next s1;
       let s2 = s1\<lparr>q_tail := next\<rparr>;
       s3 \<leftarrow> freeListEnqueue tail s2;
       Some (True, output', s3)
     }
   }"

definition mcDequeueLight :: "'a \<Rightarrow> 'a MPMCQueue \<Rightarrow> (bool \<times> 'a \<times> 'a MPMCQueue) option" where
  "mcDequeueLight output s =
     (let (tail, s1) = tail_exchange None s in
      if tail = None then Some (False, output, s1)
      else do {
        next \<leftarrow> load_next tail s1;
        if next = None then Some (False, output, snd (tail_exchange tail s1))
        else do {
          output' \<leftarrow> load_data next s1;
          let s2 = s1\<lparr>q_tail := next\<rparr>;
          s3 \<leftarrow> freeListEnqueue tail s2;
          Some (True, output', s3)
        }
      })"

subsection \<open>Sequential histories\<close>

text \<open>
  A caller that invokes the public operations one after another, each running to
  completion. Every dequeue is passed the caller's variable \<open>output\<close>; the run records
  the flag each dequeue returned together with the value of \<open>output\<close> after the call.
\<close>

datatype 'a operation = SpEnqueue 'a | MpEnqueue 'a | ScDequeue | McDequeue | McDequeueLight

fun is_enqueue :: "'a operation \<Rightarrow> bool" where
  "is_enqueue (SpEnqueue v) = True"
| "is_enqueue (MpEnqueue v) = True"
| "is_enqueue _ = False"

fun enqueue :: "'a operation \<Rightarrow> 'a MPMCQueue \<Rightarrow> 'a MPMCQueue option" where
  "enqueue (SpEnqueue v) s = spEnqueue v s"
| "enqueue (MpEnqueue v) s = mpEnqueue v s"
| "enqueue _ s = None"

fun dequeue :: "'a operation \<Rightarrow> 'a \<Rightarrow> 'a MPMCQueue \<Rightarrow> (bool \<times> 'a \<times> 'a MPMCQueue) option" where
  "dequeue ScDequeue output s = scDequeue output s"
| "dequeue McDequeue output s = mcDequeue output s"
| "dequeue McDequeueLight output s = mcDequeueLight output s"
| "dequeue _ output s = None"

fun run :: "'a operation list \<Rightarrow> 'a \<Rightarrow> 'a MPMCQueue \<Rightarrow>
    ((bool \<times> 'a) list \<times> 'a \<times> 'a MPMCQueue) option" where
  "run [] output s = Some ([], output, s)"
| "run (op # ops) output s =
     (if is_enqueue op then do {
        s' \<leftarrow> enqueue op s;
        run ops output s'
      } else do {
        (b, output', s') \<leftarrow> dequeue op output s;
        (rs, output'', s'') \<leftarrow> run ops output' s';
        Some ((b, output') # rs, output'', s'')
      })"

text \<open>The values passed to enqueues, and the values returned by successful dequeues.\<close>

fun enqueued :: "'a operation list \<Rightarrow> 'a list" where
  "enqueued [] = []"
| "enqueued (SpEnqueue v # ops) = v # enqueued ops"
| "enqueued (MpEnqueue v # ops) = v # enqueued ops"
| "enqueued (_ # ops) = enqueued ops"

definition dequeued :: "(bool \<times> 'a) list \<Rightarrow> 'a list" where
  "dequeued rs = map snd (filter fst rs)"


section \<open>The sharded queue (multilist_vector_queue.hpp)\<close>

subsection \<open>Subqueues\<close>

text \<open>
  Modelled from the spec: \<open>list_queue\<close> (bk_conq/list_queue.hpp), the class of the
  subqueues, is not among the sources. The specification identifies every subqueue with
  the unbounded linked queue, so its four member functions used here are taken to be the
  operations of \<open>MPMCQueue\<close> above. The spinning dequeue is taken with the other threads
  at work (\<open>others\<close> is what they do to the polled subqueue while the caller yields), since
  it is called where another consumer may hold the tail.
\<close>

type_synonym 'a list_queue = "'a MPMCQueue"

definition list_queue_mp_enqueue :: "'a \<Rightarrow> 'a list_queue \<Rightarrow> 'a list_queue option" where
  "list_queue_mp_enqueue = mpEnqueue"

definition list_queue_sc_dequeue ::
  "'a \<Rightarrow> 'a list_queue \<Rightarrow> (bool \<times> 'a \<times> 'a list_queue) option" where
  "list_queue_sc_dequeue = scDequeue"

definition list_queue_mc_dequeue ::
  "('a list_queue \<Rightarrow> 'a list_queue) \<Rightarrow> 'a \<Rightarrow> 'a list_queue \<Rightarrow>
   (bool \<times> 'a \<times> 'a list_queue) option" where
  "list_queue_mc_dequeue others = mcDequeue_among others"

definition list_queue_mc_dequeue_light ::
  "'a \<Rightarrow> 'a list_queue \<Rightarrow> (bool \<times> 'a \<times> 'a list_queue) option" where
  "list_queue_mc_dequeue_light = mcDequeueLight"

subsection \<open>The queue object and the thread-local variables\<close>

text \<open>
  \<open>q_vec\<close> is the vector \<open>_q\<close>; \<open>enqueue_indx\<close> is the \<open>std::atomic<size_t>\<close> counter
  (64 bits, wrapping).
\<close>

record 'a multilist_vector_queue =
  q_vec :: "'a list_queue list"
  enqueue_indx :: "64 word"

definition multilist_vector_queue_new :: "'a \<Rightarrow> nat \<Rightarrow> 'a multilist_vector_queue" where
  "multilist_vector_queue_new d subqueues =
     \<lparr>q_vec = replicate subqueues (MPMCQueue_new d), enqueue_indx = 0\<rparr>"

text \<open>
  The member functions keep their per-thread data in function-local
  \<open>thread_local static\<close> variables. Such a variable belongs to one function (for a function
  template: to one specialisation) and one thread, and is initialised when that thread
  first executes the declaration. \<open>sp_enqueue_forward<U>\<close> and \<open>mp_enqueue_forward<U>\<close>
  are each instantiated twice: with \<open>U = T\<close> by the overloads taking \<open>T&&\<close>, and with
  \<open>U = const T&\<close> by the overloads taking \<open>const T&\<close>. A thread therefore owns four
  variables \<open>indx\<close> and two variables \<open>hitlist\<close>; \<open>None\<close> is a variable not yet
  initialised.
\<close>

datatype overload = Rvalue | Lvalue

record thread_locals =
  sp_indx :: "overload \<Rightarrow> nat option"
  mp_indx :: "overload \<Rightarrow> nat option"
  sc_hitlist :: "nat list option"
  mc_hitlist :: "nat list option"

definition thread_start :: thread_locals where
  "thread_start =
     \<lparr>sp_indx = (\<lambda>_. None), mp_indx = (\<lambda>_. None), sc_hitlist = None, mc_hitlist = None\<rparr>"

subsection \<open>Enqueue\<close>

text \<open>
  The initialiser \<open>_enqueue_indx.fetch_add(1) % _q.size()\<close>; the remainder by zero of an
  empty vector is undefined.
\<close>

definition next_indx ::
  "'a multilist_vector_queue \<Rightarrow> (nat \<times> 'a multilist_vector_queue) option" where
  "next_indx q =
     (if length (q_vec q) = 0 then None
      else Some (unat (enqueue_indx q) mod length (q_vec q),
                 q\<lparr>enqueue_indx := enqueue_indx q + 1\<rparr>))"

text \<open>\<open>_q[index].mp_enqueue(input)\<close>; an index outside the vector is undefined behaviour.\<close>

definition subqueue_mp_enqueue ::
  "nat \<Rightarrow> 'a \<Rightarrow> 'a multilist_vector_queue \<Rightarrow> 'a multilist_vector_queue option" where
  "subqueue_mp_enqueue index input q =
     (if index < length (q_vec q) then do {
        sq \<leftarrow> list_queue_mp_enqueue input (q_vec q ! index);
        Some (q\<lparr>q_vec := (q_vec q)[index := sq]\<rparr>)
      } else None)"

definition sp_enqueue_forward ::
  "overload \<Rightarrow> 'a \<Rightarrow> thread_locals \<Rightarrow> 'a multilist_vector_queue \<Rightarrow>
   (thread_locals \<times> 'a multilist_vector_queue) option" where
  "sp_enqueue_forward U input t q = do {
     (indx, q1) \<leftarrow> (case sp_indx t U of Some i \<Rightarrow> Some (i, q) | None \<Rightarrow> next_indx q);
     q2 \<leftarrow> subqueue_mp_enqueue indx input q1;
     Some (t\<lparr>sp_indx := (sp_indx t)(U := Some indx)\<rparr>, q2)
   }"

definition sp_enqueue_forward_index ::
  "'a \<Rightarrow> nat \<Rightarrow> 'a multilist_vector_queue \<Rightarrow> 'a multilist_vector_queue option" where
  "sp_enqueue_forward_index input index q = subqueue_mp_enqueue index input q"

definition mp_enqueue_forward ::
  "overload \<Rightarrow> 'a \<Rightarrow> thread_locals \<Rightarrow> 'a multilist_vector_queue \<Rightarrow>
   (thread_locals \<times> 'a multilist_vector_queue) option" where
  "mp_enqueue_forward U input t q = do {
     (indx, q1) \<leftarrow> (case mp_indx t U of Some i \<Rightarrow> Some (i, q) | None \<Rightarrow> next_indx q);
     q2 \<leftarrow> subqueue_mp_enqueue indx input q1;
     Some (t\<lparr>mp_indx := (mp_indx t)(U := Some indx)\<rparr>, q2)
   }"

definition mp_enqueue_forward_index ::
  "'a \<Rightarrow> nat \<Rightarrow> 'a multilist_vector_queue \<Rightarrow> 'a multilist_vector_queue option" where
  "mp_enqueue_forward_index input index q = subqueue_mp_enqueue index input q"

text \<open>
  The public overloads. \<open>sp_enqueue(T&&)\<close> and \<open>sp_enqueue(const T&)\<close> forward to the
  specialisation for their value category, and likewise for \<open>mp_enqueue\<close>; the overloads
  with an index forward to the two-argument functions.
\<close>

definition sp_enqueue ::
  "overload \<Rightarrow> 'a \<Rightarrow> thread_locals \<Rightarrow> 'a multilist_vector_queue \<Rightarrow>
   (thread_locals \<times> 'a multilist_vector_queue) option" where
  "sp_enqueue U input t q = sp_enqueue_forward U input t q"

definition mp_enqueue ::
  "overload \<Rightarrow> 'a \<Rightarrow> thread_locals \<Rightarrow> 'a multilist_vector_queue \<Rightarrow>
   (thread_locals \<times> 'a multilist_vector_queue) option" where
  "mp_enqueue U input t q = mp_enqueue_forward U input t q"

definition sp_enqueue_index ::
  "'a \<Rightarrow> nat \<Rightarrow> thread_locals \<Rightarrow> 'a multilist_vector_queue \<Rightarrow>
   (thread_locals \<times> 'a multilist_vector_queue) option" where
  "sp_enqueue_index input index t q = map_option (Pair t) (sp_enqueue_forward_index input index q)"

definition mp_enqueue_index ::
  "'a \<Rightarrow> nat \<Rightarrow> thread_locals \<Rightarrow> 'a multilist_vector_queue \<Rightarrow>
   (thread_locals \<times> 'a multilist_vector_queue) option" where
  "mp_enqueue_index input index t q = map_option (Pair t) (mp_enqueue_forward_index input index q)"


subsection \<open>Dequeue and the hitlist\<close>

definition hitlist_sequence :: "'a multilist_vector_queue \<Rightarrow> nat list" where
  "hitlist_sequence q = [0 ..< length (q_vec q)]"

definition iter_swap :: "nat \<Rightarrow> nat \<Rightarrow> nat list \<Rightarrow> nat list" where
  "iter_swap it it2 hitlist = hitlist[it := hitlist ! it2, it2 := hitlist ! it]"

text \<open>
  The update loop \<open>for (it2 = begin; it2 != it; ++it2) iter_swap(it, it2)\<close>. Iterators
  are positions; \<open>it2\<close> starts at the front, at or before \<open>it\<close>, so \<open>it2 != it\<close> is
  \<open>it2 < it\<close>.
\<close>

function hitlist_update :: "nat \<Rightarrow> nat \<Rightarrow> nat list \<Rightarrow> nat list" where
  "hitlist_update it2 it hitlist =
     (if it2 < it then hitlist_update (Suc it2) it (iter_swap it it2 hitlist) else hitlist)"
  by pat_completeness auto
termination
  by (relation "measure (\<lambda>(it2, it, hitlist). it - it2)") auto

declare hitlist_update.simps [simp del]

text \<open>
  The scan loop \<open>for (it = begin; it != end; ++it)\<close>, which \<open>sc_dequeue\<close> and both passes
  of \<open>mc_dequeue\<close> share; \<open>subqueue_dequeue\<close> is the member function called on the subqueue \<open>_q[*it]\<close>.
  An entry of the hitlist outside the vector is undefined behaviour.
\<close>

function hitlist_scan ::
  "('a \<Rightarrow> 'a list_queue \<Rightarrow> (bool \<times> 'a \<times> 'a list_queue) option) \<Rightarrow> nat \<Rightarrow> nat list \<Rightarrow> 'a \<Rightarrow>
   'a multilist_vector_queue \<Rightarrow> (bool \<times> 'a \<times> nat list \<times> 'a multilist_vector_queue) option" where
  "hitlist_scan subqueue_dequeue it hitlist output q =
     (if it < length hitlist then
        (if hitlist ! it < length (q_vec q) then
           (case subqueue_dequeue output (q_vec q ! (hitlist ! it)) of
              None \<Rightarrow> None
            | Some (hit, output', sq) \<Rightarrow>
                (let q' = q\<lparr>q_vec := (q_vec q)[hitlist ! it := sq]\<rparr> in
                 if hit then Some (True, output', hitlist_update 0 it hitlist, q')
                 else hitlist_scan subqueue_dequeue (Suc it) hitlist output' q'))
         else None)
      else Some (False, output, hitlist, q))"
  by pat_completeness auto
termination
  by (relation "measure (\<lambda>(subqueue_dequeue, it, hitlist, output, q). length hitlist - it)") auto

declare hitlist_scan.simps [simp del]

definition sc_dequeue_scan ::
  "nat list \<Rightarrow> 'a \<Rightarrow> 'a multilist_vector_queue \<Rightarrow>
   (bool \<times> 'a \<times> nat list \<times> 'a multilist_vector_queue) option" where
  "sc_dequeue_scan hitlist output q = hitlist_scan list_queue_sc_dequeue 0 hitlist output q"


text \<open>
  The member functions: the thread's \<open>hitlist\<close> is initialised from \<open>hitlist_sequence\<close> on
  the first call and kept afterwards.
\<close>

definition sc_dequeue ::
  "'a \<Rightarrow> thread_locals \<Rightarrow> 'a multilist_vector_queue \<Rightarrow>
   (bool \<times> 'a \<times> thread_locals \<times> 'a multilist_vector_queue) option" where
  "sc_dequeue output t q = do {
     let hitlist = (case sc_hitlist t of None \<Rightarrow> hitlist_sequence q | Some h \<Rightarrow> h);
     (hit, output', hitlist', q') \<leftarrow> sc_dequeue_scan hitlist output q;
     Some (hit, output', t\<lparr>sc_hitlist := Some hitlist'\<rparr>, q')
   }"


section \<open>Specification vocabulary\<close>

subsection \<open>Linked lists in the heap\<close>

text \<open>
  \<open>chain h p as\<close>: following \<open>next\<close> from the pointer \<open>p\<close> visits exactly the nodes \<open>as\<close>
  and then reaches null.
\<close>

fun chain :: "(nat \<rightharpoonup> 'a listNode) \<Rightarrow> ptr \<Rightarrow> nat list \<Rightarrow> bool" where
  "chain h p [] = (p = None)"
| "chain h p (a # as) =
     (p = Some a \<and> (case h a of None \<Rightarrow> False | Some nd \<Rightarrow> chain h (nxt nd) as))"

definition payloads :: "(nat \<rightharpoonup> 'a listNode) \<Rightarrow> nat list \<Rightarrow> 'a option list" where
  "payloads h as = map (\<lambda>a. map_option data (h a)) as"

text \<open>
  A queue at an operation boundary: the main list runs from \<open>_tail\<close> through the nodes
  \<open>ms\<close> and ends at \<open>_head\<close>, the freelist runs from \<open>_freeListTail\<close> through \<open>fs\<close> and ends
  at \<open>_freeListHead\<close>, every allocated node is on exactly one of the two lists, and the
  payloads behind the sentinel (the first node of \<open>ms\<close>) are the queued values \<open>xs\<close>.
\<close>

definition represents :: "'a MPMCQueue \<Rightarrow> nat list \<Rightarrow> nat list \<Rightarrow> 'a list \<Rightarrow> bool" where
  "represents s ms fs xs \<longleftrightarrow>
     ms \<noteq> [] \<and> fs \<noteq> [] \<and>
     chain (heap s) (q_tail s) ms \<and> q_head s = Some (last ms) \<and>
     chain (heap s) (q_freeListTail s) fs \<and> q_freeListHead s = Some (last fs) \<and>
     distinct (ms @ fs) \<and> set (ms @ fs) = {..<allocations s} \<and>
     payloads (heap s) (tl ms) = map Some xs"

text \<open>
  A queue inside an enqueue, after \<open>acquireOrAllocate\<close> has returned the node \<open>n\<close> holding
  \<open>v\<close> and before the node is linked.
\<close>

definition in_transit ::
  "'a MPMCQueue \<Rightarrow> nat list \<Rightarrow> nat \<Rightarrow> 'a \<Rightarrow> nat list \<Rightarrow> 'a list \<Rightarrow> bool" where
  "in_transit s ms n v fs xs \<longleftrightarrow>
     ms \<noteq> [] \<and> fs \<noteq> [] \<and>
     chain (heap s) (q_tail s) ms \<and> q_head s = Some (last ms) \<and>
     chain (heap s) (q_freeListTail s) fs \<and> q_freeListHead s = Some (last fs) \<and>
     distinct (ms @ n # fs) \<and> set (ms @ n # fs) = {..<allocations s} \<and>
     heap s n = Some \<lparr>data = v, nxt = None\<rparr> \<and>
     payloads (heap s) (tl ms) = map Some xs"

text \<open>The queue is drained: the sentinel at \<open>_tail\<close> has no successor.\<close>

definition drained :: "'a MPMCQueue \<Rightarrow> bool" where
  "drained s \<longleftrightarrow> load_next (q_tail s) s = Some None"


section \<open>Properties of the unbounded linked queue\<close>

subsection \<open>Lists in the heap\<close>

lemma chain_upd_other: "a \<notin> set as \<Longrightarrow> chain (h(a := x)) p as = chain h p as"
  by (induction as arbitrary: p) (auto split: option.splits)

lemma chain_dom: "chain h p as \<Longrightarrow> set as \<subseteq> dom h"
  by (induction as arbitrary: p) (auto split: option.splits)

lemma chain_last: "chain h p as \<Longrightarrow> as \<noteq> [] \<Longrightarrow> \<exists>nd. h (last as) = Some nd \<and> nxt nd = None"
  by (induction as arbitrary: p) (auto split: option.splits)

lemma chain_snoc:
  "chain h p as \<Longrightarrow> as \<noteq> [] \<Longrightarrow> distinct (as @ [b]) \<Longrightarrow> h (last as) = Some nd \<Longrightarrow>
   h b = Some nb \<Longrightarrow> nxt nb = None \<Longrightarrow>
   chain (h(last as \<mapsto> nd\<lparr>nxt := Some b\<rparr>)) p (as @ [b])"
proof (induction as arbitrary: p)
  case Nil
  then show ?case by simp
next
  case (Cons a as)
  show ?case
  proof (cases "as = []")
    case True
    with Cons.prems show ?thesis by (auto split: option.splits)
  next
    case False
    with Cons.prems Cons.IH show ?thesis by (auto split: option.splits)
  qed
qed

lemma payloads_upd_other: "a \<notin> set as \<Longrightarrow> payloads (h(a := x)) as = payloads h as"
  by (induction as) (auto simp: payloads_def)

lemma payloads_append: "payloads h (as @ bs) = payloads h as @ payloads h bs"
  by (simp add: payloads_def)

lemma payloads_nxt_upd: "h a = Some nd \<Longrightarrow> payloads (h(a \<mapsto> nd\<lparr>nxt := v\<rparr>)) as = payloads h as"
  by (induction as) (auto simp: payloads_def)

lemma represents_new: "represents (MPMCQueue_new d) [0] [1] []"
  by (simp add: represents_def MPMCQueue_new_def new_listNode_def payloads_def lessThan_Suc insert_commute)


lemma represents_allocations:
  assumes "represents s ms fs xs"
  shows "allocations s = length ms + length fs"
proof -
  from assms have "distinct (ms @ fs)" "set (ms @ fs) = {..<allocations s}"
    by (simp_all add: represents_def)
  then have "card {..<allocations s} = length (ms @ fs)"
    using distinct_card by metis
  then show ?thesis by simp
qed


lemma represents_free:
  "represents s ms fs xs \<Longrightarrow> chain (heap s) (q_freeListTail s) fs"
  "represents s ms fs xs \<Longrightarrow> q_freeListHead s = Some (last fs)"
  "represents s ms fs xs \<Longrightarrow> fs \<noteq> []"
  by (simp_all add: represents_def)

lemma represents_main:
  "represents s ms fs xs \<Longrightarrow> chain (heap s) (q_tail s) ms"
  "represents s ms fs xs \<Longrightarrow> q_head s = Some (last ms)"
  "represents s ms fs xs \<Longrightarrow> ms \<noteq> []"
  "represents s ms fs xs \<Longrightarrow> payloads (heap s) (tl ms) = map Some xs"
  by (simp_all add: represents_def)

lemma represents_nodes:
  "represents s ms fs xs \<Longrightarrow> distinct (ms @ fs)"
  "represents s ms fs xs \<Longrightarrow> set (ms @ fs) = {..<allocations s}"
  by (simp_all add: represents_def)

lemma freeListTryDequeue_single:
  assumes "represents s ms [f] xs"
  shows "freeListTryDequeue s = Some (None, s)"
  using represents_free(1)[OF assms]
  by (auto simp: freeListTryDequeue_def load_next_def deref_def split: option.splits)

lemma freeListTryDequeue_more:
  assumes "represents s ms (f # f' # fs) xs"
  shows "freeListTryDequeue s = Some (Some f, s\<lparr>q_freeListTail := Some f'\<rparr>)"
  using represents_free(1)[OF assms]
  by (auto simp: freeListTryDequeue_def load_next_def deref_def
      freeListTail_compare_exchange_def split: option.splits)


lemma represents_fresh:
  assumes r: "represents s ms fs xs"
  shows "allocations s \<notin> set ms" "allocations s \<notin> set fs"
proof -
  have "allocations s \<notin> {..<allocations s}" by simp
  then have "allocations s \<notin> set (ms @ fs)"
    using represents_nodes(2)[OF r] by blast
  then show "allocations s \<notin> set ms" "allocations s \<notin> set fs" by simp_all
qed

lemma acquireOrAllocate_single:
  assumes r: "represents s ms [f] xs"
  shows "\<exists>s1. acquireOrAllocate v s = Some (allocations s, s1) \<and>
           in_transit s1 ms (allocations s) v [f] xs \<and>
           allocations s1 = Suc (allocations s)"
proof -
  let ?n = "allocations s"
  let ?h = "(heap s)(?n \<mapsto> \<lparr>data = v, nxt = None\<rparr>)"
  let ?s1 = "s\<lparr>heap := ?h, allocations := Suc ?n\<rparr>"
  have acq: "acquireOrAllocate v s = Some (?n, ?s1)"
    by (simp add: acquireOrAllocate_def freeListTryDequeue_single[OF r] new_listNode_def)
  note fresh = represents_fresh[OF r]
  have fresh': "?n \<notin> set (tl ms)"
    using fresh(1) by (cases ms) auto
  have c1: "chain ?h (q_tail s) ms"
    using represents_main(1)[OF r] chain_upd_other[OF fresh(1)] by blast
  have c2: "chain ?h (q_freeListTail s) [f]"
    using represents_free(1)[OF r] chain_upd_other[OF fresh(2)] by blast
  have p: "payloads ?h (tl ms) = map Some xs"
    using represents_main(4)[OF r] payloads_upd_other[OF fresh'] by metis
  have d: "distinct (ms @ ?n # [f])"
    using represents_nodes(1)[OF r] fresh by simp
  have st: "set (ms @ ?n # [f]) = {..<Suc ?n}"
    using represents_nodes(2)[OF r] by (auto simp: lessThan_Suc)
  have "in_transit ?s1 ms ?n v [f] xs"
    unfolding in_transit_def
    using c1 c2 p d st represents_main(2,3)[OF r] represents_free(2)[OF r]
    by simp
  with acq show ?thesis by simp
qed


lemma in_transit_parts:
  "in_transit s ms n v fs xs \<Longrightarrow> chain (heap s) (q_tail s) ms"
  "in_transit s ms n v fs xs \<Longrightarrow> q_head s = Some (last ms)"
  "in_transit s ms n v fs xs \<Longrightarrow> ms \<noteq> []"
  "in_transit s ms n v fs xs \<Longrightarrow> payloads (heap s) (tl ms) = map Some xs"
  "in_transit s ms n v fs xs \<Longrightarrow> chain (heap s) (q_freeListTail s) fs"
  "in_transit s ms n v fs xs \<Longrightarrow> q_freeListHead s = Some (last fs)"
  "in_transit s ms n v fs xs \<Longrightarrow> fs \<noteq> []"
  "in_transit s ms n v fs xs \<Longrightarrow> distinct (ms @ n # fs)"
  "in_transit s ms n v fs xs \<Longrightarrow> set (ms @ n # fs) = {..<allocations s}"
  "in_transit s ms n v fs xs \<Longrightarrow> heap s n = Some \<lparr>data = v, nxt = None\<rparr>"
  by (simp_all add: in_transit_def)

lemma listNode_updates: "nd\<lparr>data := v, nxt := p\<rparr> = \<lparr>data = v, nxt = p\<rparr>"
  by (cases nd) simp

lemma acquireOrAllocate_more:
  assumes r: "represents s ms (f # f' # fs) xs"
  shows "\<exists>s1. acquireOrAllocate v s = Some (f, s1) \<and>
           in_transit s1 ms f v (f' # fs) xs \<and>
           allocations s1 = allocations s"
proof -
  from represents_free(1)[OF r] obtain nd where
    nd: "heap s f = Some nd" and c: "chain (heap s) (Some f') (f' # fs)"
    by (auto split: option.splits)
  let ?h = "(heap s)(f \<mapsto> \<lparr>data = v, nxt = None\<rparr>)"
  let ?s1 = "s\<lparr>heap := ?h, q_freeListTail := Some f'\<rparr>"
  have acq: "acquireOrAllocate v s = Some (f, ?s1)"
    using nd
    by (simp add: acquireOrAllocate_def freeListTryDequeue_more[OF r] store_data_def store_next_def
        listNode_updates)
  from represents_nodes(1)[OF r] have f1: "f \<notin> set ms" and f2: "f \<notin> set (f' # fs)"
    by auto
  have f3: "f \<notin> set (tl ms)"
    using f1 by (cases ms) auto
  have c1: "chain ?h (q_tail s) ms"
    using represents_main(1)[OF r] chain_upd_other[OF f1] by blast
  have c2: "chain ?h (Some f') (f' # fs)"
    using c chain_upd_other[OF f2] by blast
  have p: "payloads ?h (tl ms) = map Some xs"
    using represents_main(4)[OF r] payloads_upd_other[OF f3] by metis
  have fh: "q_freeListHead s = Some (last (f' # fs))"
    using represents_free(2)[OF r] by simp
  have "in_transit ?s1 ms f v (f' # fs) xs"
    unfolding in_transit_def
    using c1 c2 p fh represents_nodes[OF r] represents_main(2,3)[OF r]
    by simp
  with acq show ?thesis by simp
qed

lemma link_represents:
  assumes t: "in_transit s ms n v fs xs"
    and nd: "heap s (last ms) = Some nd"
  shows "represents (s\<lparr>heap := (heap s)(last ms \<mapsto> nd\<lparr>nxt := Some n\<rparr>), q_head := Some n\<rparr>)
           (ms @ [n]) fs (xs @ [v])"
proof -
  let ?h = "(heap s)(last ms \<mapsto> nd\<lparr>nxt := Some n\<rparr>)"
  note ne = in_transit_parts(3)[OF t]
  from in_transit_parts(8)[OF t] have d1: "distinct (ms @ [n])" and d2: "distinct ((ms @ [n]) @ fs)"
    by auto
  have l1: "last ms \<notin> set fs" and l2: "last ms \<noteq> n"
    using in_transit_parts(8)[OF t] last_in_set[OF ne] by auto
  have c1: "chain ?h (q_tail s) (ms @ [n])"
    using chain_snoc[OF in_transit_parts(1)[OF t] ne d1 nd in_transit_parts(10)[OF t]] by simp
  have c2: "chain ?h (q_freeListTail s) fs"
    using in_transit_parts(5)[OF t] chain_upd_other[OF l1] by blast
  have "payloads ?h (tl ms @ [n]) = payloads (heap s) (tl ms @ [n])"
    using payloads_nxt_upd[where h = "heap s", OF nd] by blast
  also have "\<dots> = map Some xs @ [Some v]"
    using in_transit_parts(4)[OF t] in_transit_parts(10)[OF t]
    by (simp add: payloads_def)
  finally have p: "payloads ?h (tl (ms @ [n])) = map Some (xs @ [v])"
    using ne by simp
  have st: "set ((ms @ [n]) @ fs) = {..<allocations s}"
    using in_transit_parts(9)[OF t] by simp
  show ?thesis
    unfolding represents_def
    using c1 c2 p d2 st in_transit_parts(6,7)[OF t]
    by simp
qed

lemma enqueue_link:
  assumes t: "in_transit s ms n v fs xs"
  shows "\<exists>s'. store_next (q_head s) (Some n) s = Some s' \<and>
           represents (s'\<lparr>q_head := Some n\<rparr>) (ms @ [n]) fs (xs @ [v]) \<and>
           allocations s' = allocations s \<and>
           (let (prev_head, s2) = head_exchange (Some n) s in store_next prev_head (Some n) s2)
             = Some (s'\<lparr>q_head := Some n\<rparr>)"
proof -
  from chain_last[OF in_transit_parts(1)[OF t] in_transit_parts(3)[OF t]]
  obtain nd where nd: "heap s (last ms) = Some nd" by blast
  show ?thesis
    using link_represents[OF t nd] nd in_transit_parts(2)[OF t]
    by (simp add: store_next_def head_exchange_def)
qed


lemma acquireOrAllocate_represents:
  assumes r: "represents s ms fs xs"
  shows "\<exists>n s1. acquireOrAllocate v s = Some (n, s1) \<and>
           in_transit s1 ms n v (if tl fs = [] then fs else tl fs) xs \<and>
           allocations s1 = (if tl fs = [] then Suc (allocations s) else allocations s)"
proof (cases fs)
  case Nil
  with represents_free(3)[OF r] show ?thesis by simp
next
  case (Cons f fs')
  show ?thesis
  proof (cases fs')
    case Nil
    with Cons r acquireOrAllocate_single[of s ms f xs v] show ?thesis by auto
  next
    case (Cons f' fs'')
    with \<open>fs = f # fs'\<close> r acquireOrAllocate_more[of s ms f f' fs'' xs v] show ?thesis by auto
  qed
qed

lemma spEnqueue_represents:
  assumes r: "represents s ms fs xs"
  shows "\<exists>n s'. spEnqueue v s = Some s' \<and>
           represents s' (ms @ [n]) (if tl fs = [] then fs else tl fs) (xs @ [v]) \<and>
           allocations s' = (if tl fs = [] then Suc (allocations s) else allocations s)"
proof -
  from acquireOrAllocate_represents[OF r, of v] obtain n s1 where
    acq: "acquireOrAllocate v s = Some (n, s1)"
    and t: "in_transit s1 ms n v (if tl fs = [] then fs else tl fs) xs"
    and al: "allocations s1 = (if tl fs = [] then Suc (allocations s) else allocations s)"
    by blast
  from enqueue_link[OF t] obtain s2 where
    st: "store_next (q_head s1) (Some n) s1 = Some s2"
    and r': "represents (s2\<lparr>q_head := Some n\<rparr>) (ms @ [n]) (if tl fs = [] then fs else tl fs) (xs @ [v])"
    and al': "allocations s2 = allocations s1"
    by blast
  have "spEnqueue v s = Some (s2\<lparr>q_head := Some n\<rparr>)"
    by (simp add: spEnqueue_def acq st)
  with r' al al' show ?thesis by auto
qed

lemma mpEnqueue_represents:
  assumes r: "represents s ms fs xs"
  shows "\<exists>n s'. mpEnqueue v s = Some s' \<and>
           represents s' (ms @ [n]) (if tl fs = [] then fs else tl fs) (xs @ [v]) \<and>
           allocations s' = (if tl fs = [] then Suc (allocations s) else allocations s)"
proof -
  from acquireOrAllocate_represents[OF r, of v] obtain n s1 where
    acq: "acquireOrAllocate v s = Some (n, s1)"
    and t: "in_transit s1 ms n v (if tl fs = [] then fs else tl fs) xs"
    and al: "allocations s1 = (if tl fs = [] then Suc (allocations s) else allocations s)"
    by blast
  from enqueue_link[OF t] obtain s2 where
    r': "represents (s2\<lparr>q_head := Some n\<rparr>) (ms @ [n]) (if tl fs = [] then fs else tl fs) (xs @ [v])"
    and al': "allocations s2 = allocations s1"
    and ex: "(let (prev_head, s2) = head_exchange (Some n) s1 in store_next prev_head (Some n) s2)
             = Some (s2\<lparr>q_head := Some n\<rparr>)"
    by blast
  have "mpEnqueue v s = Some (s2\<lparr>q_head := Some n\<rparr>)"
    using ex by (simp add: mpEnqueue_def acq)
  with r' al al' show ?thesis by auto
qed

lemma scDequeue_empty:
  assumes r: "represents s [t] fs xs"
  shows "scDequeue output s = Some (False, output, s)"
  using represents_main(1)[OF r]
  by (auto simp: scDequeue_def load_next_def deref_def split: option.splits)

lemma scDequeue_nonempty:
  assumes r: "represents s (t # m # ms) fs xs"
  shows "\<exists>s'. scDequeue output s = Some (True, hd xs, s') \<and>
           represents s' (m # ms) (fs @ [t]) (tl xs) \<and>
           allocations s' = allocations s"
proof -
  from represents_main(1)[OF r] obtain tn mn where
    qt: "q_tail s = Some t" and tn: "heap s t = Some tn" and tm: "nxt tn = Some m"
    and mn: "heap s m = Some mn" and c: "chain (heap s) (Some m) (m # ms)"
    by (auto split: option.splits)
  from represents_main(4)[OF r] mn have xs: "Some (data mn) # payloads (heap s) ms = map Some xs"
    by (simp add: payloads_def)
  then obtain x xs' where xs': "xs = x # xs'" by (cases xs) auto
  with xs have x: "data mn = x" and p: "payloads (heap s) ms = map Some xs'" by auto
  note fne = represents_free(3)[OF r]
  from chain_last[OF represents_free(1)[OF r] fne] obtain fn where
    fn: "heap s (last fs) = Some fn" by blast
  from represents_nodes(1)[OF r] last_in_set[OF fne]
  have t1: "t \<notin> set (m # ms)" and t2: "t \<notin> set fs" and t3: "last fs \<noteq> t"
    and l1: "last fs \<notin> set (m # ms)" and d: "distinct (fs @ [t])"
    and d2: "distinct ((m # ms) @ fs @ [t])"
    by auto
  let ?h1 = "(heap s)(t \<mapsto> tn\<lparr>nxt := None\<rparr>)"
  let ?h2 = "?h1(last fs \<mapsto> fn\<lparr>nxt := Some t\<rparr>)"
  let ?s' = "s\<lparr>heap := ?h2, q_tail := Some m, q_freeListHead := Some t\<rparr>"
  have deq: "scDequeue output s = Some (True, x, ?s')"
    using qt tn tm mn x fn t3 represents_free(2)[OF r]
    by (simp add: scDequeue_def load_next_def load_data_def deref_def freeListEnqueue_def
        store_next_def freeListHead_exchange_def Let_def)
  have c1: "chain ?h2 (Some m) (m # ms)"
    using c chain_upd_other[OF t1] chain_upd_other[OF l1] by blast
  have "chain ?h1 (q_freeListTail s) fs"
    using represents_free(1)[OF r] chain_upd_other[OF t2] by blast
  from chain_snoc[OF this fne d, of "fn" "tn\<lparr>nxt := None\<rparr>"] fn t3
  have c2: "chain ?h2 (q_freeListTail s) (fs @ [t])" by simp
  have t4: "t \<notin> set ms" and l2: "last fs \<notin> set ms" using t1 l1 by auto
  have p': "payloads ?h2 ms = map Some xs'"
    using p payloads_upd_other[OF t4] payloads_upd_other[OF l2] by metis
  have st: "set ((m # ms) @ fs @ [t]) = {..<allocations s}"
    using represents_nodes(2)[OF r] by auto
  have hd: "q_head s = Some (last (m # ms))"
    using represents_main(2)[OF r] by simp
  have "represents ?s' (m # ms) (fs @ [t]) xs'"
    unfolding represents_def
    using c1 c2 p' d2 st hd
    by simp
  with deq xs' show ?thesis by simp
qed


lemma mcDequeue_spin_taken:
  "q_tail s = Some t \<Longrightarrow> mcDequeue_spin s = Some (Some t, s\<lparr>q_tail := None\<rparr>)"
  by (subst mcDequeue_spin.simps) (simp add: tail_exchange_def)

lemma mcDequeue_spin_held:
  assumes "q_tail s = None"
  shows "mcDequeue_spin s = None"
proof (cases "mcDequeue_spin s")
  case None
  then show ?thesis .
next
  case (Some r)
  have "q_tail s \<noteq> None"
    by (rule mcDequeue_spin.raw_induct[where P = "\<lambda>s r. q_tail s \<noteq> None", OF _ Some])
       (fastforce simp: tail_exchange_def split: option.splits)
  with assms show ?thesis by simp
qed

lemma tail_restore: "q_tail s = Some t \<Longrightarrow> s\<lparr>q_tail := Some t\<rparr> = s"
  by (cases s) simp

lemma mcDequeueLight_uncontended:
  assumes "q_tail s = Some t"
  shows "mcDequeueLight output s = scDequeue output s"
proof (cases "heap s t")
  case None
  with assms show ?thesis
    by (simp add: mcDequeueLight_def scDequeue_def tail_exchange_def load_next_def deref_def)
next
  case (Some nd)
  with assms show ?thesis
    by (cases "nxt nd")
       (simp_all add: mcDequeueLight_def scDequeue_def tail_exchange_def load_next_def
          load_data_def deref_def Let_def tail_restore)
qed

lemma mcDequeue_uncontended:
  assumes "q_tail s = Some t"
  shows "mcDequeue output s = scDequeue output s"
proof (cases "heap s t")
  case None
  with assms show ?thesis
    by (simp add: mcDequeue_def mcDequeue_spin_taken scDequeue_def load_next_def deref_def)
next
  case (Some nd)
  with assms show ?thesis
    by (cases "nxt nd")
       (simp_all add: mcDequeue_def mcDequeue_spin_taken scDequeue_def tail_exchange_def
          load_next_def load_data_def deref_def Let_def tail_restore)
qed

lemma mcDequeueLight_contended:
  "q_tail s = None \<Longrightarrow> mcDequeueLight output s = Some (False, output, s)"
  by (cases s) (simp add: mcDequeueLight_def tail_exchange_def)

lemma mcDequeue_contended:
  "q_tail s = None \<Longrightarrow> mcDequeue output s = None"
  by (simp add: mcDequeue_def mcDequeue_spin_held)


subsection \<open>Sequential round trip\<close>

text \<open>
  C1. On a freshly constructed queue, \<open>spEnqueue\<close> of 1, 2 and 3 followed by four calls
  of \<open>scDequeue\<close> returns true with 1, true with 2, true with 3, and then false; the
  fourth call leaves the caller's variable as the third call set it.
\<close>

theorem round_trip:
  "map_option fst
     (run [SpEnqueue 1, SpEnqueue 2, SpEnqueue 3, ScDequeue, ScDequeue, ScDequeue, ScDequeue]
        d (MPMCQueue_new (d::int)))
   = Some [(True, 1), (True, 2), (True, 3), (False, 3)]"
  by (simp add: MPMCQueue_new_def new_listNode_def spEnqueue_def acquireOrAllocate_def
      freeListTryDequeue_def load_next_def load_data_def deref_def store_next_def store_data_def
      scDequeue_def freeListEnqueue_def freeListHead_exchange_def
      freeListTail_compare_exchange_def Let_def)


subsection \<open>Operations on a represented queue\<close>

lemma represents_length: "represents s ms fs xs \<Longrightarrow> length ms = Suc (length xs)"
proof -
  assume r: "represents s ms fs xs"
  from represents_main(4)[OF r] have "length (payloads (heap s) (tl ms)) = length (map Some xs)"
    by simp
  then have "length (tl ms) = length xs" by (simp add: payloads_def)
  with represents_main(3)[OF r] show ?thesis by (cases ms) auto
qed

lemma represents_drained:
  assumes r: "represents s ms fs xs"
  shows "drained s \<longleftrightarrow> xs = []"
proof (cases ms)
  case Nil
  with represents_main(3)[OF r] show ?thesis by simp
next
  case (Cons t ms')
  from represents_length[OF r] Cons have l: "length ms' = length xs" by simp
  from represents_main(1)[OF r] Cons show ?thesis
    using l by (cases ms') (auto simp: drained_def load_next_def deref_def split: option.splits)
qed

lemma enqueue_represents:
  assumes r: "represents s ms fs xs" and e: "is_enqueue op"
  shows "\<exists>n s'. enqueue op s = Some s' \<and>
           represents s' (ms @ [n]) (if tl fs = [] then fs else tl fs) (xs @ enqueued [op]) \<and>
           allocations s' = (if tl fs = [] then Suc (allocations s) else allocations s)"
  using e spEnqueue_represents[OF r] mpEnqueue_represents[OF r]
  by (cases op) auto

lemma dequeue_represents_empty:
  assumes r: "represents s ms fs []" and e: "\<not> is_enqueue op"
  shows "dequeue op out s = Some (False, out, s)"
proof -
  from represents_length[OF r] obtain t where ms: "ms = [t]"
    by (cases ms) auto
  from represents_main(1)[OF r] ms have qt: "q_tail s = Some t" by simp
  from e show ?thesis
    using scDequeue_empty[OF r[unfolded ms]] mcDequeue_uncontended[OF qt]
      mcDequeueLight_uncontended[OF qt]
    by (cases op) auto
qed

lemma dequeue_represents_nonempty:
  assumes r: "represents s ms fs (x # xs)" and e: "\<not> is_enqueue op"
  shows "\<exists>s'. dequeue op out s = Some (True, x, s') \<and>
           represents s' (tl ms) (fs @ [hd ms]) xs \<and>
           allocations s' = allocations s"
proof -
  from represents_length[OF r] obtain t m ms' where ms: "ms = t # m # ms'"
    by (cases ms; cases "tl ms") auto
  from represents_main(1)[OF r] ms have qt: "q_tail s = Some t" by simp
  from scDequeue_nonempty[OF r[unfolded ms], of out] obtain s' where
    "scDequeue out s = Some (True, x, s')" "represents s' (m # ms') (fs @ [t]) xs"
    "allocations s' = allocations s" by auto
  with e ms show ?thesis
    using mcDequeue_uncontended[OF qt] mcDequeueLight_uncontended[OF qt]
    by (cases op) auto
qed

lemma run_represents:
  assumes "represents s ms fs xs"
  shows "\<exists>rs out' s' ms' fs' xs'. run ops out s = Some (rs, out', s') \<and>
           represents s' ms' fs' xs' \<and> xs @ enqueued ops = dequeued rs @ xs'"
  using assms
proof (induction ops arbitrary: s ms fs xs out)
  case Nil
  then show ?case by (auto simp: dequeued_def)
next
  case (Cons op ops)
  show ?case
  proof (cases "is_enqueue op")
    case True
    from enqueue_represents[OF Cons.prems True] obtain n s1 where
      e: "enqueue op s = Some s1"
      and r1: "represents s1 (ms @ [n]) (if tl fs = [] then fs else tl fs) (xs @ enqueued [op])"
      by blast
    from Cons.IH[OF r1, of out] obtain rs out' s' ms' fs' xs' where
      "run ops out s1 = Some (rs, out', s')" "represents s' ms' fs' xs'"
      "(xs @ enqueued [op]) @ enqueued ops = dequeued rs @ xs'" by blast
    moreover have "enqueued [op] @ enqueued ops = enqueued (op # ops)"
      using True by (cases op) auto
    ultimately show ?thesis using True e by (auto simp del: enqueued.simps) 
  next
    case False
    then have eq: "enqueued (op # ops) = enqueued ops" by (cases op) auto
    show ?thesis
    proof (cases xs)
      case Nil
      from dequeue_represents_empty[OF Cons.prems[unfolded Nil] False, of out]
      have d: "dequeue op out s = Some (False, out, s)" .
      from Cons.IH[OF Cons.prems, of out] obtain rs out' s' ms' fs' xs' where
        "run ops out s = Some (rs, out', s')" "represents s' ms' fs' xs'"
        "xs @ enqueued ops = dequeued rs @ xs'" by blast
      then show ?thesis using False d eq by (auto simp: dequeued_def)
    next
      case (Cons x xs0)
      from dequeue_represents_nonempty[OF Cons.prems[unfolded Cons] False, of out]
      obtain s1 where d: "dequeue op out s = Some (True, x, s1)"
        and r1: "represents s1 (tl ms) (fs @ [hd ms]) xs0" by blast
      from Cons.IH[OF r1, of x] obtain rs out' s' ms' fs' xs' where
        "run ops x s1 = Some (rs, out', s')" "represents s' ms' fs' xs'"
        "xs0 @ enqueued ops = dequeued rs @ xs'" by blast
      then show ?thesis using False d eq Cons by (auto simp: dequeued_def)
    qed
  qed
qed

lemmas ulq_eval =
  MPMCQueue_new_def new_listNode_def spEnqueue_def mpEnqueue_def acquireOrAllocate_def
  freeListTryDequeue_def load_next_def load_data_def deref_def store_next_def store_data_def
  scDequeue_def mcDequeue_def mcDequeueLight_def mcDequeue_spin_taken freeListEnqueue_def
  freeListHead_exchange_def head_exchange_def tail_exchange_def
  freeListTail_compare_exchange_def Let_def


subsection \<open>Conservation\<close>

text \<open>
  C2. For every sequence of enqueue and dequeue operations run one after another on a
  fresh queue, the run returns, the multiset of the values returned by successful
  dequeues is contained in the multiset of the values passed to enqueues, and when the
  queue ends drained the two multisets are equal.
\<close>

theorem conservation:
  "\<exists>rs out' s'. run ops out (MPMCQueue_new d) = Some (rs, out', s') \<and>
     mset (dequeued rs) \<subseteq># mset (enqueued ops) \<and>
     (drained s' \<longrightarrow> mset (dequeued rs) = mset (enqueued ops))"
proof -
  from run_represents[OF represents_new, of ops out d] obtain rs out' s' ms' fs' xs' where
    r: "run ops out (MPMCQueue_new d) = Some (rs, out', s')"
    and rep: "represents s' ms' fs' xs'" and eq: "enqueued ops = dequeued rs @ xs'"
    by auto
  from eq have sub: "mset (dequeued rs) \<subseteq># mset (enqueued ops)" by simp
  from eq represents_drained[OF rep] have "drained s' \<longrightarrow> mset (dequeued rs) = mset (enqueued ops)"
    by simp
  with r sub show ?thesis by blast
qed



text \<open>
  The hypothesis of C2 is met by a history that drains the queue: two enqueues and two
  dequeues.
\<close>

theorem conservation_witness:
  "drained (snd (snd (the (run [SpEnqueue 1, MpEnqueue 2, McDequeue, ScDequeue] 0
       (MPMCQueue_new (0::int)))))) \<and>
   mset (dequeued (fst (the (run [SpEnqueue 1, MpEnqueue 2, McDequeue, ScDequeue] 0
       (MPMCQueue_new (0::int)))))) = mset (enqueued [SpEnqueue 1, MpEnqueue 2, McDequeue, ScDequeue])"
proof -
  let ?r = "run [SpEnqueue 1, MpEnqueue 2, McDequeue, ScDequeue] 0 (MPMCQueue_new (0::int))"
  have d: "drained (snd (snd (the ?r)))"
    by (simp add: ulq_eval drained_def)
  from conservation[of "[SpEnqueue 1, MpEnqueue 2, McDequeue, ScDequeue]" 0 "0::int"]
  obtain rs out' s' where "?r = Some (rs, out', s')"
    "drained s' \<longrightarrow> mset (dequeued rs) = mset (enqueued [SpEnqueue 1, MpEnqueue 2, McDequeue, ScDequeue])"
    by blast
  with d show ?thesis by simp
qed


subsection \<open>Head and tail pointers\<close>

text \<open>
  Against C3 as stated: the exchange that opens \<open>mcDequeue\<close> and \<open>mcDequeueLight\<close>
  stores null into \<open>_tail\<close>. Applied to a fresh queue, whose head and tail are not null,
  it leaves a state whose tail is null.
\<close>

theorem tail_exchange_nulls_tail:
  "q_head (MPMCQueue_new (0::int)) \<noteq> None \<and> q_tail (MPMCQueue_new (0::int)) \<noteq> None \<and>
   q_tail (snd (tail_exchange None (MPMCQueue_new (0::int)))) = None"
  by (simp add: ulq_eval)


text \<open>
  C3, amended. At every operation boundary of a sequential history on a fresh queue the
  history has returned and \<open>_head\<close> and \<open>_tail\<close> are not null, so every public operation
  run to completion preserves this; the exchange that takes the tail leaves \<open>_head\<close>
  not null.
\<close>

theorem head_tail_non_null:
  "\<exists>rs out' s'. run ops out (MPMCQueue_new d) = Some (rs, out', s') \<and>
     q_head s' \<noteq> None \<and> q_tail s' \<noteq> None \<and>
     q_head (snd (tail_exchange None s')) \<noteq> None"
proof -
  from run_represents[OF represents_new, of ops out d] obtain rs out' s' ms' fs' xs' where
    r: "run ops out (MPMCQueue_new d) = Some (rs, out', s')"
    and rep: "represents s' ms' fs' xs'"
    by auto
  from represents_main(1,3)[OF rep] have "q_tail s' \<noteq> None" by (cases ms') auto
  with r represents_main(2)[OF rep] show ?thesis by (simp add: tail_exchange_def)
qed



subsection \<open>Freelist reuse\<close>

lemma run_append:
  "run (as @ bs) out s =
     (case run as out s of
        None \<Rightarrow> None
      | Some (rs, out1, s1) \<Rightarrow>
          (case run bs out1 s1 of
             None \<Rightarrow> None
           | Some (rs', out2, s2) \<Rightarrow> Some (rs @ rs', out2, s2)))"
proof (induction as arbitrary: out s)
  case Nil
  show ?case by (simp split: option.splits)
next
  case (Cons a as)
  show ?case
  proof (cases "is_enqueue a")
    case True
    then show ?thesis
      by (cases "enqueue a s") (simp_all add: Cons.IH)
  next
    case False
    show ?thesis
    proof (cases "dequeue a out s")
      case None
      with False show ?thesis by simp
    next
      case (Some r)
      obtain b out1 s1 where r: "r = (b, out1, s1)" by (cases r) auto
      show ?thesis
        using False Some r
        by (cases "run as out1 s1"; cases "run (as @ bs) out1 s1")
           (auto simp: Cons.IH split: option.splits)
    qed
  qed
qed

lemma run_enqueues:
  assumes "represents s ms fs xs" "list_all is_enqueue es"
  shows "\<exists>s' ms' fs'. run es out s = Some ([], out, s') \<and>
           represents s' ms' fs' (xs @ enqueued es) \<and>
           length fs' = max 1 (length fs - length es) \<and>
           length (enqueued es) = length es"
  using assms
proof (induction es arbitrary: s ms fs xs)
  case Nil
  from represents_free(3)[OF Nil(1)] have "1 \<le> length fs" by (cases fs) auto
  with Nil show ?case by auto
next
  case (Cons e es)
  then have e: "is_enqueue e" and es: "list_all is_enqueue es" by auto
  from enqueue_represents[OF Cons.prems(1) e] obtain n s1 where
    e1: "enqueue e s = Some s1"
    and r1: "represents s1 (ms @ [n]) (if tl fs = [] then fs else tl fs) (xs @ enqueued [e])"
    by blast
  from Cons.IH[OF r1 es] obtain s' ms' fs' where
    r: "run es out s1 = Some ([], out, s')"
    and rep: "represents s' ms' fs' ((xs @ enqueued [e]) @ enqueued es)"
    and l: "length fs' = max 1 (length (if tl fs = [] then fs else tl fs) - length es)"
    and le: "length (enqueued es) = length es"
    by blast
  have en: "enqueued [e] @ enqueued es = enqueued (e # es)" "length (enqueued [e]) = 1"
    using e by (cases e; simp)+
  from represents_free(3)[OF Cons.prems(1)] have "length fs' = max 1 (length fs - length (e # es))"
    using l by (cases fs; cases "tl fs") auto
  moreover have "length (enqueued (e # es)) = length (e # es)"
    using en le by (metis length_append length_Cons One_nat_def add.commute plus_1_eq_Suc)
  moreover have "represents s' ms' fs' (xs @ enqueued (e # es))"
    using rep en(1) by (metis append.assoc)
  ultimately show ?case using e e1 r by (auto simp del: enqueued.simps)
qed

lemma run_dequeues:
  assumes "represents s ms fs xs" "list_all (\<lambda>op. \<not> is_enqueue op) ds" "length ds \<le> length xs"
  shows "\<exists>rs out' s' ms' fs'. run ds out s = Some (rs, out', s') \<and>
           represents s' ms' fs' (drop (length ds) xs) \<and>
           length fs' = length fs + length ds"
  using assms
proof (induction ds arbitrary: s ms fs xs out)
  case Nil
  then show ?case by auto
next
  case (Cons d ds)
  then have d: "\<not> is_enqueue d" and ds: "list_all (\<lambda>op. \<not> is_enqueue op) ds" by auto
  from Cons.prems(3) obtain x xs0 where xs: "xs = x # xs0" by (cases xs) auto
  from dequeue_represents_nonempty[OF Cons.prems(1)[unfolded xs] d, of out]
  obtain s1 where d1: "dequeue d out s = Some (True, x, s1)"
    and r1: "represents s1 (tl ms) (fs @ [hd ms]) xs0" by blast
  from Cons.prems(3) xs have "length ds \<le> length xs0" by simp
  from Cons.IH[OF r1 ds this, of x] obtain rs out' s' ms' fs' where
    "run ds x s1 = Some (rs, out', s')" "represents s' ms' fs' (drop (length ds) xs0)"
    "length fs' = length (fs @ [hd ms]) + length ds" by blast
  then show ?case using d d1 xs by auto
qed


text \<open>
  C8. For every K, a sequential run on a fresh queue of K enqueues, then K dequeues, then
  K further enqueues returns with K + 2 nodes allocated in total, the two sentinels of the
  constructor included; before each enqueue of the second round the count already is
  K + 2 and \<open>freeListTryDequeue\<close> yields a node of the freelist, so none of them
  allocates.
\<close>

theorem freelist_reuse:
  assumes "list_all is_enqueue first" "list_all (\<lambda>op. \<not> is_enqueue op) middle"
    "list_all is_enqueue second"
    "length first = K" "length middle = K" "length second = K"
  shows "\<exists>rs out' s'. run (first @ middle @ second) out (MPMCQueue_new d) = Some (rs, out', s') \<and>
           allocations s' = K + 2 \<and>
           (\<forall>i<K. \<exists>rs1 out1 s1 node s2.
               run (first @ middle @ take i second) out (MPMCQueue_new d) = Some (rs1, out1, s1) \<and>
               allocations s1 = K + 2 \<and>
               freeListTryDequeue s1 = Some (Some node, s2))"
proof -
  from run_enqueues[OF represents_new assms(1), of out d] obtain sa msa fsa where
    ra: "run first out (MPMCQueue_new d) = Some ([], out, sa)"
    and repa: "represents sa msa fsa (enqueued first)"
    and lfa: "length fsa = 1" and lea: "length (enqueued first) = K"
    using assms(4) by auto
  from run_dequeues[OF repa assms(2), of out] obtain rsb outb sb msb fsb where
    rb: "run middle out sa = Some (rsb, outb, sb)"
    and repb: "represents sb msb fsb []"
    and lfb: "length fsb = Suc K"
    using lea lfa assms(5) by auto
  have ab: "run (first @ middle) out (MPMCQueue_new d) = Some (rsb, outb, sb)"
    using ra rb by (simp add: run_append)
  have part: "\<exists>s1 ms1 fs1. run (first @ middle @ es) out (MPMCQueue_new d) = Some (rsb, outb, s1) \<and>
      represents s1 ms1 fs1 (enqueued es) \<and> length fs1 = max 1 (Suc K - length es) \<and>
      length ms1 = Suc (length es)"
    if "list_all is_enqueue es" for es
  proof -
    from run_enqueues[OF repb that, of outb] obtain s1 ms1 fs1 where
      r: "run es outb sb = Some ([], outb, s1)" and rep: "represents s1 ms1 fs1 (enqueued es)"
      and lf: "length fs1 = max 1 (Suc K - length es)" and le: "length (enqueued es) = length es"
      using lfb by auto
    have "run ((first @ middle) @ es) out (MPMCQueue_new d) = Some (rsb, outb, s1)"
      using ab r by (subst run_append) simp
    with rep lf le represents_length[OF rep] show ?thesis by auto
  qed
  from part[OF assms(3)] obtain s' ms' fs' where
    r': "run (first @ middle @ second) out (MPMCQueue_new d) = Some (rsb, outb, s')"
    and rep': "represents s' ms' fs' (enqueued second)"
    and "length fs' = max 1 (Suc K - length second)" "length ms' = Suc (length second)"
    by blast
  with represents_allocations[OF rep'] assms(6) have al: "allocations s' = K + 2" by simp
  have each: "\<exists>rs1 out1 s1 node s2.
      run (first @ middle @ take i second) out (MPMCQueue_new d) = Some (rs1, out1, s1) \<and>
      allocations s1 = K + 2 \<and> freeListTryDequeue s1 = Some (Some node, s2)"
    if i: "i < K" for i
  proof -
    have "list_all is_enqueue (take i second)"
      using assms(3) by (auto simp: list_all_iff dest: in_set_takeD)
    from part[OF this] obtain s1 ms1 fs1 where
      r1: "run (first @ middle @ take i second) out (MPMCQueue_new d) = Some (rsb, outb, s1)"
      and rep1: "represents s1 ms1 fs1 (enqueued (take i second))"
      and lf: "length fs1 = max 1 (Suc K - length (take i second))"
      and lm: "length ms1 = Suc (length (take i second))"
      by blast
    from i assms(6) have li: "length (take i second) = i" by simp
    with lf i have lf': "length fs1 = Suc K - i" by simp
    with represents_allocations[OF rep1] lm li i have al1: "allocations s1 = K + 2" by simp
    from lf' i obtain f f' fs'' where "fs1 = f # f' # fs''"
      by (cases fs1; cases "tl fs1") auto
    with rep1 freeListTryDequeue_more[of s1 ms1 f f' fs''] 
    have "freeListTryDequeue s1 = Some (Some f, s1\<lparr>q_freeListTail := Some f'\<rparr>)" by simp
    with r1 al1 show ?thesis by blast
  qed
  from r' al each show ?thesis by blast
qed

text \<open>The hypotheses of C8 hold for K = 2, with both kinds of enqueue and of dequeue.\<close>

theorem freelist_reuse_witness:
  "list_all is_enqueue [SpEnqueue 1, MpEnqueue (2::int)] \<and>
   list_all (\<lambda>op. \<not> is_enqueue op) [ScDequeue, McDequeueLight :: int operation] \<and>
   list_all is_enqueue [MpEnqueue 3, SpEnqueue (4::int)] \<and>
   allocations (snd (snd (the (run ([SpEnqueue 1, MpEnqueue 2] @ [ScDequeue, McDequeueLight] @
       [MpEnqueue 3, SpEnqueue 4]) 0 (MPMCQueue_new (0::int)))))) = 4"
proof -
  have h: "list_all is_enqueue [SpEnqueue 1, MpEnqueue (2::int)]"
    "list_all (\<lambda>op. \<not> is_enqueue op) [ScDequeue, McDequeueLight :: int operation]"
    "list_all is_enqueue [MpEnqueue 3, SpEnqueue (4::int)]"
    by simp_all
  from freelist_reuse[OF h, of 2 0 0] obtain rs out' s' where
    "run ([SpEnqueue 1, MpEnqueue 2] @ [ScDequeue, McDequeueLight] @ [MpEnqueue 3, SpEnqueue 4])
       0 (MPMCQueue_new (0::int)) = Some (rs, out', s')" "allocations s' = 2 + 2"
    by auto
  with h show ?thesis by simp
qed

subsection \<open>Failed dequeues\<close>

lemma scDequeue_false:
  assumes "scDequeue out s = Some (False, out', s')"
  shows "s' = s \<and> out' = out"
proof (cases "load_next (q_tail s) s")
  case None
  with assms show ?thesis by (simp add: scDequeue_def)
next
  case (Some nx)
  with assms show ?thesis
    by (cases nx) (auto simp: scDequeue_def Let_def split: bind_splits)
qed

lemma mcDequeueLight_false:
  assumes "mcDequeueLight out s = Some (False, out', s')"
  shows "s' = s \<and> out' = out"
proof (cases "q_tail s")
  case None
  with assms show ?thesis by (simp add: mcDequeueLight_contended)
next
  case (Some t)
  with assms scDequeue_false show ?thesis by (simp add: mcDequeueLight_uncontended)
qed

lemma mcDequeue_false:
  assumes "mcDequeue out s = Some (False, out', s')"
  shows "s' = s \<and> out' = out"
proof (cases "q_tail s")
  case None
  with assms show ?thesis by (simp add: mcDequeue_contended)
next
  case (Some t)
  with assms scDequeue_false show ?thesis by (simp add: mcDequeue_uncontended)
qed

text \<open>
  C10. Whenever \<open>scDequeue\<close>, \<open>mcDequeue\<close> or \<open>mcDequeueLight\<close> returns false, the whole
  queue state (head, tail, both lists, the heap) is the state before the call, so the
  tail pointer an MC dequeue had taken is back in place, and the caller's variable is not
  written.
\<close>

theorem failed_dequeue_unchanged:
  "(scDequeue out s = Some (False, out', s') \<longrightarrow> s' = s \<and> out' = out) \<and>
   (mcDequeue out s = Some (False, out', s') \<longrightarrow> s' = s \<and> out' = out) \<and>
   (mcDequeueLight out s = Some (False, out', s') \<longrightarrow> s' = s \<and> out' = out)"
proof -
  have sc: "scDequeue out s = Some (False, out', s') \<longrightarrow> s' = s \<and> out' = out"
    by (rule impI) (rule scDequeue_false)
  have mc: "mcDequeue out s = Some (False, out', s') \<longrightarrow> s' = s \<and> out' = out"
    by (rule impI) (rule mcDequeue_false)
  have ml: "mcDequeueLight out s = Some (False, out', s') \<longrightarrow> s' = s \<and> out' = out"
    by (rule impI) (rule mcDequeueLight_false)
  show ?thesis by (rule conjI[OF sc conjI[OF mc ml]])
qed

text \<open>On a fresh queue all three dequeues return false, and the theorem applies to each.\<close>

theorem failed_dequeue_unchanged_witness:
  "scDequeue 7 (MPMCQueue_new (0::int)) = Some (False, 7, MPMCQueue_new 0) \<and>
   mcDequeue 7 (MPMCQueue_new (0::int)) = Some (False, 7, MPMCQueue_new 0) \<and>
   mcDequeueLight 7 (MPMCQueue_new (0::int)) = Some (False, 7, MPMCQueue_new 0)"
proof -
  let ?N = "MPMCQueue_new (0::int)"
  have "fst (the (scDequeue 7 ?N)) = False" "scDequeue 7 ?N \<noteq> None"
    by (simp_all add: ulq_eval)
  then obtain o1 s1 where r1: "scDequeue 7 ?N = Some (False, o1, s1)"
    by (cases "scDequeue 7 ?N") auto
  have "fst (the (mcDequeue 7 ?N)) = False" "mcDequeue 7 ?N \<noteq> None"
    by (simp_all add: ulq_eval)
  then obtain o2 s2 where r2: "mcDequeue 7 ?N = Some (False, o2, s2)"
    by (cases "mcDequeue 7 ?N") auto
  have "fst (the (mcDequeueLight 7 ?N)) = False" "mcDequeueLight 7 ?N \<noteq> None"
    by (simp_all add: ulq_eval)
  then obtain o3 s3 where r3: "mcDequeueLight 7 ?N = Some (False, o3, s3)"
    by (cases "mcDequeueLight 7 ?N") auto
  from failed_dequeue_unchanged[of 7 ?N o1 s1] r1 have e1: "s1 = ?N \<and> o1 = 7" by blast
  from failed_dequeue_unchanged[of 7 ?N o2 s2] r2 have e2: "s2 = ?N \<and> o2 = 7" by blast
  from failed_dequeue_unchanged[of 7 ?N o3 s3] r3 have e3: "s3 = ?N \<and> o3 = 7" by blast
  from r1 e1 have a: "scDequeue 7 ?N = Some (False, 7, ?N)" by simp
  from r2 e2 have b: "mcDequeue 7 ?N = Some (False, 7, ?N)" by simp
  from r3 e3 have c: "mcDequeueLight 7 ?N = Some (False, 7, ?N)" by simp
  show ?thesis by (rule conjI[OF a conjI[OF b c]])
qed

subsection \<open>The non-spinning dequeue\<close>

text \<open>
  C4. \<open>mcDequeueLight\<close> returns false, leaving queue and output as they were, when the
  tail slot holds null (another consumer has taken it), and it does return there
  rather than retry; it returns false in the same way when the queue is empty; and on a
  queue holding \<open>x # xs\<close> it returns true, writes \<open>x\<close> to the output and leaves a queue
  holding \<open>xs\<close>. So it returns true exactly when it removes the front element and writes
  it.
\<close>

theorem mcDequeueLight_result:
  "(q_tail s = None \<longrightarrow> mcDequeueLight out s = Some (False, out, s)) \<and>
   (represents s ms fs [] \<longrightarrow> mcDequeueLight out s = Some (False, out, s)) \<and>
   (represents s ms fs (x # xs) \<longrightarrow>
      (\<exists>s'. mcDequeueLight out s = Some (True, x, s') \<and> represents s' (tl ms) (fs @ [hd ms]) xs))"
  using mcDequeueLight_contended[of s out]
    dequeue_represents_empty[of s ms fs McDequeueLight out]
    dequeue_represents_nonempty[of s ms fs x xs McDequeueLight out]
  by auto

lemma represents_one:
  "represents (the (spEnqueue (5::int) (MPMCQueue_new 0))) [0, 2] [1] [5]"
  by (simp add: ulq_eval represents_def payloads_def lessThan_Suc insert_commute numeral_2_eq_2)

text \<open>
  The three cases of C4 on concrete queues: a queue holding 5 whose tail another
  consumer has taken, a fresh queue, and a queue holding 5.
\<close>

theorem mcDequeueLight_result_witness:
  "q_tail (snd (tail_exchange None (the (spEnqueue 5 (MPMCQueue_new (0::int)))))) = None \<and>
   mcDequeueLight 7 (snd (tail_exchange None (the (spEnqueue 5 (MPMCQueue_new (0::int))))))
     = Some (False, 7, snd (tail_exchange None (the (spEnqueue 5 (MPMCQueue_new (0::int)))))) \<and>
   represents (MPMCQueue_new (0::int)) [0] [1] [] \<and>
   mcDequeueLight 7 (MPMCQueue_new (0::int)) = Some (False, 7, MPMCQueue_new 0) \<and>
   represents (the (spEnqueue (5::int) (MPMCQueue_new 0))) [0, 2] [1] [5] \<and>
   map_option (\<lambda>(b, v, s'). (b, v)) (mcDequeueLight 7 (the (spEnqueue (5::int) (MPMCQueue_new 0))))
     = Some (True, 5)"
proof -
  let ?N = "MPMCQueue_new (0::int)"
  let ?S = "the (spEnqueue (5::int) ?N)"
  let ?H = "snd (tail_exchange None ?S)"
  have h: "q_tail ?H = None" by (simp add: tail_exchange_def)
  from mcDequeueLight_result[where s = ?H and out = 7] h
  have a: "mcDequeueLight 7 ?H = Some (False, 7, ?H)" by blast
  from mcDequeueLight_result[where s = ?N and ms = "[0]" and fs = "[1]"] represents_new[of "0::int"]
  have b: "mcDequeueLight 7 ?N = Some (False, 7, ?N)" by blast
  from mcDequeueLight_result[where s = ?S and ms = "[0, 2]" and fs = "[1]" and x = 5 and xs = "[]" and out = 7]
    represents_one
  have c: "map_option (\<lambda>(b, v, s'). (b, v)) (mcDequeueLight 7 ?S) = Some (True, 5)" by auto
  from h a b c represents_new[of "0::int"] represents_one show ?thesis by simp
qed


section \<open>Properties of the sharded queue\<close>

subsection \<open>The hitlist update and the scan\<close>

lemma iter_swap_length: "length (iter_swap i j hl) = length hl"
  by (simp add: iter_swap_def)

lemma iter_swap_mset: "i < length hl \<Longrightarrow> j < length hl \<Longrightarrow> mset (iter_swap i j hl) = mset hl"
  by (simp add: iter_swap_def mset_swap)

lemma hitlist_update_length: "length (hitlist_update j k hl) = length hl"
proof (induction j k hl rule: hitlist_update.induct)
  case (1 it2 it hitlist)
  then show ?case
    by (subst hitlist_update.simps) (simp add: iter_swap_length)
qed

lemma hitlist_update_mset:
  "k < length hl \<Longrightarrow> mset (hitlist_update j k hl) = mset hl"
proof (induction j k hl rule: hitlist_update.induct)
  case (1 it2 it hitlist)
  then show ?case
    by (subst hitlist_update.simps) (simp add: iter_swap_length iter_swap_mset)
qed

lemma hitlist_update_front_kept:
  "0 < j \<Longrightarrow> k < length hl \<Longrightarrow> hitlist_update j k hl ! 0 = hl ! 0"
proof (induction j k hl rule: hitlist_update.induct)
  case (1 it2 it hitlist)
  show ?case
  proof (cases "it2 < it")
    case True
    have "hitlist_update it2 it hitlist = hitlist_update (Suc it2) it (iter_swap it it2 hitlist)"
      using True by (subst hitlist_update.simps) simp
    also have "\<dots> ! 0 = iter_swap it it2 hitlist ! 0"
      using 1 True by (simp add: iter_swap_length)
    also have "\<dots> = hitlist ! 0"
      using 1(2) True by (simp add: iter_swap_def)
    finally show ?thesis .
  next
    case False
    then show ?thesis by (subst hitlist_update.simps) simp
  qed
qed

lemma hitlist_update_front:
  assumes "k < length hl"
  shows "hitlist_update 0 k hl ! 0 = hl ! k"
proof (cases "0 < k")
  case True
  from assms have pos: "0 < length hl" by (cases hl) simp_all
  have "hitlist_update 0 k hl = hitlist_update (Suc 0) k (iter_swap k 0 hl)"
    using True by (subst hitlist_update.simps) simp
  also have "\<dots> ! 0 = iter_swap k 0 hl ! 0"
    using assms by (intro hitlist_update_front_kept) (simp_all add: iter_swap_length)
  also have "\<dots> = hl ! k"
    using pos by (simp add: iter_swap_def)
  finally show ?thesis .
next
  case False
  then show ?thesis by (subst hitlist_update.simps) simp
qed

lemma hitlist_update_closed:
  "j \<le> k \<Longrightarrow> k < length hl \<Longrightarrow>
   hitlist_update j k hl = take j hl @ [hl ! k] @ take (k - j) (drop j hl) @ drop (Suc k) hl"
proof (induction j k hl rule: hitlist_update.induct)
  case (1 it2 it hitlist)
  show ?case
  proof (cases "it2 < it")
    case True
    let ?c = "iter_swap it it2 hitlist"
    have l: "length ?c = length hitlist" by (simp add: iter_swap_length)
    from True 1(3) have j: "it2 < length hitlist" by simp
    have step: "hitlist_update it2 it hitlist = hitlist_update (Suc it2) it ?c"
      using True by (subst hitlist_update.simps) simp
    have ih: "hitlist_update (Suc it2) it ?c =
        take (Suc it2) ?c @ [?c ! it] @ take (it - Suc it2) (drop (Suc it2) ?c) @ drop (Suc it) ?c"
      using 1 True l by simp
    have e1: "take (Suc it2) ?c = take it2 hitlist @ [hitlist ! it]"
      using True 1(3) j by (simp add: iter_swap_def take_Suc_conv_app_nth)
    have e2: "?c ! it = hitlist ! it2"
      using True 1(3) by (simp add: iter_swap_def)
    have e3: "take (it - Suc it2) (drop (Suc it2) ?c) = take (it - Suc it2) (drop (Suc it2) hitlist)"
      using True by (simp add: iter_swap_def drop_update_swap)
    have e4: "drop (Suc it) ?c = drop (Suc it) hitlist"
      using True by (simp add: iter_swap_def)
    have e5: "take (it - it2) (drop it2 hitlist) =
        hitlist ! it2 # take (it - Suc it2) (drop (Suc it2) hitlist)"
    proof -
      from True have "it - it2 = Suc (it - Suc it2)" by simp
      moreover have "drop it2 hitlist = hitlist ! it2 # drop (Suc it2) hitlist"
        using j by (simp add: Cons_nth_drop_Suc)
      ultimately show ?thesis by simp
    qed
    show ?thesis
      unfolding step ih e1 e2 e3 e4 e5 by simp
  next
    case False
    with 1 have "it2 = it" by simp
    with 1 show ?thesis
      by (subst hitlist_update.simps) (simp add: Cons_nth_drop_Suc)
  qed
qed


lemma same_subqueue: "q\<lparr>q_vec := (q_vec q)[i := q_vec q ! i]\<rparr> = q"
  by simp

lemma hitlist_scan_hit:
  assumes unchanged: "\<And>out s out' s'. deq out s = Some (False, out', s') \<Longrightarrow> s' = s \<and> out' = out"
    and ik: "i \<le> k" and k: "k < length hl"
    and fails: "\<forall>j. i \<le> j \<and> j < k \<longrightarrow> hl ! j < length (q_vec q) \<and>
        map_option fst (deq out (q_vec q ! (hl ! j))) = Some False"
    and range: "hl ! k < length (q_vec q)"
    and hit: "deq out (q_vec q ! (hl ! k)) = Some (True, x, sq)"
  shows "hitlist_scan deq i hl out q =
      Some (True, x, hitlist_update 0 k hl, q\<lparr>q_vec := (q_vec q)[hl ! k := sq]\<rparr>)"
  using ik fails
proof (induction "k - i" arbitrary: i)
  case 0
  then have "i = k" by simp
  with k range hit show ?case
    by (subst hitlist_scan.simps) simp
next
  case (Suc n)
  then have lt: "i < k" by simp
  with Suc.prems(2) have r: "hl ! i < length (q_vec q)"
    and f: "map_option fst (deq out (q_vec q ! (hl ! i))) = Some False" by auto
  from f obtain out' s' where d: "deq out (q_vec q ! (hl ! i)) = Some (False, out', s')"
    by (cases "deq out (q_vec q ! (hl ! i))") auto
  from unchanged[OF d] have u: "s' = q_vec q ! (hl ! i)" "out' = out" by simp_all
  have "hitlist_scan deq i hl out q = hitlist_scan deq (Suc i) hl out q"
    using lt k r d u by (subst hitlist_scan.simps) simp
  also have "\<dots> = Some (True, x, hitlist_update 0 k hl, q\<lparr>q_vec := (q_vec q)[hl ! k := sq]\<rparr>)"
    using Suc.hyps(2) lt Suc.prems(2) by (intro Suc.hyps(1)) auto
  finally show ?case .
qed



lemma list_queue_sc_unchanged:
  "list_queue_sc_dequeue out s = Some (False, out', s') \<Longrightarrow> s' = s \<and> out' = out"
  unfolding list_queue_sc_dequeue_def by (rule scDequeue_false)


lemma permutation_bounds:
  assumes "mset hl = mset [0..<N]"
  shows "length hl = N" "\<forall>j<length hl. hl ! j < N"
proof -
  from assms have "size (mset hl) = size (mset [0..<N])" by simp
  then show l: "length hl = N" by simp
  from assms have "set_mset (mset hl) = set_mset (mset [0..<N])" by simp
  then have "set hl = {0..<N}" by simp
  then show "\<forall>j<length hl. hl ! j < N"
    using nth_mem by fastforce
qed

lemmas saq_eval =
  multilist_vector_queue_new_def subqueue_mp_enqueue_def list_queue_mp_enqueue_def
  list_queue_sc_dequeue_def list_queue_mc_dequeue_def list_queue_mc_dequeue_light_def
  next_indx_def hitlist_sequence_def iter_swap_def


text \<open>
  C6. For every hitlist that is a permutation of [0, N) and every hit position k, the
  update loop yields a permutation of [0, N) whose first entry is the hit subqueue; and
  when the single-consumer dequeue fails on the subqueues at the hitlist positions before
  k and succeeds on the one at position k, the scan returns true with that subqueue's
  element, with the hitlist so updated and with no other subqueue changed.
\<close>

theorem hitlist_hit:
  assumes perm: "mset hl = mset [0..<N]" and k: "k < N"
  shows "mset (hitlist_update 0 k hl) = mset [0..<N] \<and>
     hitlist_update 0 k hl ! 0 = hl ! k \<and>
     (length (q_vec q) = N \<and>
      (\<forall>j<k. map_option fst (list_queue_sc_dequeue out (q_vec q ! (hl ! j))) = Some False) \<and>
      list_queue_sc_dequeue out (q_vec q ! (hl ! k)) = Some (True, x, sq)
      \<longrightarrow> sc_dequeue_scan hl out q =
            Some (True, x, hitlist_update 0 k hl, q\<lparr>q_vec := (q_vec q)[hl ! k := sq]\<rparr>))"
proof -
  note b = permutation_bounds[OF perm]
  from b(1) k have kl: "k < length hl" by simp
  have m: "mset (hitlist_update 0 k hl) = mset [0..<N]"
    using hitlist_update_mset[OF kl] perm by simp
  have f: "hitlist_update 0 k hl ! 0 = hl ! k"
    by (rule hitlist_update_front[OF kl])
  have s: "sc_dequeue_scan hl out q =
            Some (True, x, hitlist_update 0 k hl, q\<lparr>q_vec := (q_vec q)[hl ! k := sq]\<rparr>)"
    if len: "length (q_vec q) = N"
      and fails: "\<forall>j<k. map_option fst (list_queue_sc_dequeue out (q_vec q ! (hl ! j))) = Some False"
      and hit: "list_queue_sc_dequeue out (q_vec q ! (hl ! k)) = Some (True, x, sq)"
  proof -
    have fails': "\<forall>j. 0 \<le> j \<and> j < k \<longrightarrow> hl ! j < length (q_vec q) \<and>
        map_option fst (list_queue_sc_dequeue out (q_vec q ! (hl ! j))) = Some False"
      using fails b(2) kl len by auto
    have r: "hl ! k < length (q_vec q)" using b(2) kl len by simp
    show ?thesis
      unfolding sc_dequeue_scan_def
      by (rule hitlist_scan_hit[where deq = list_queue_sc_dequeue,
            OF list_queue_sc_unchanged le0 kl fails' r hit])
  qed
  from m f s show ?thesis by blast
qed



text \<open>
  The hypotheses of C6 on three subqueues of which only subqueue 1 holds a value, polled
  in the order 2, 0, 1.
\<close>

theorem hitlist_hit_witness:
  "mset [2, 0, 1] = mset [0..<3] \<and> (2::nat) < 3 \<and>
   hitlist_update 0 2 [2, 0, 1] = [1, 2, 0] \<and>
   length (q_vec (the (subqueue_mp_enqueue 1 9 (multilist_vector_queue_new (0::int) 3)))) = 3 \<and>
   map_option (\<lambda>(hit, x, hl', q'). (hit, x, hl'))
     (sc_dequeue_scan [2, 0, 1] 0
        (the (subqueue_mp_enqueue 1 9 (multilist_vector_queue_new (0::int) 3))))
     = Some (True, 9, [1, 2, 0])"
proof -
  let ?Q = "the (subqueue_mp_enqueue 1 9 (multilist_vector_queue_new (0::int) 3))"
  have p: "mset [2, 0, 1] = mset [0..<3]"
    by (simp add: upt_rec numeral_3_eq_3 numeral_2_eq_2)
  have k: "(2::nat) < 3" by simp
  have u: "hitlist_update 0 2 [2, 0, 1] = [1, 2, 0]"
    by (simp add: hitlist_update.simps iter_swap_def numeral_2_eq_2)
  have len: "length (q_vec ?Q) = 3"
    by (simp add: saq_eval ulq_eval numeral_3_eq_3)
  have f0: "map_option fst (list_queue_sc_dequeue 0 (q_vec ?Q ! ([2, 0, 1] ! 0))) = Some False"
    by (simp add: saq_eval ulq_eval numeral_3_eq_3 numeral_2_eq_2)
  have f1: "map_option fst (list_queue_sc_dequeue 0 (q_vec ?Q ! ([2, 0, 1] ! 1))) = Some False"
    by (simp add: saq_eval ulq_eval numeral_3_eq_3 numeral_2_eq_2)
  have fails: "\<forall>j<2. map_option fst (list_queue_sc_dequeue 0 (q_vec ?Q ! ([2, 0, 1] ! j))) = Some False"
    using f0 f1 by (simp add: numeral_2_eq_2 less_Suc_eq)
  have "\<exists>sq. list_queue_sc_dequeue 0 (q_vec ?Q ! ([2, 0, 1] ! 2)) = Some (True, 9, sq)"
    by (simp add: saq_eval ulq_eval numeral_3_eq_3 numeral_2_eq_2)
  then obtain sq where hit: "list_queue_sc_dequeue 0 (q_vec ?Q ! ([2, 0, 1] ! 2)) = Some (True, 9, sq)"
    by blast
  from hitlist_hit[OF p k, where q = ?Q and out = 0 and x = 9 and sq = sq] len fails hit
  have "sc_dequeue_scan [2, 0, 1] 0 ?Q =
      Some (True, 9, hitlist_update 0 2 [2, 0, 1], ?Q\<lparr>q_vec := (q_vec ?Q)[[2, 0, 1] ! 2 := sq]\<rparr>)"
    by blast
  with u have s: "map_option (\<lambda>(hit, x, hl', q'). (hit, x, hl')) (sc_dequeue_scan [2, 0, 1] 0 ?Q)
      = Some (True, 9, [1, 2, 0])"
    by simp
  from p k u len s show ?thesis by blast
qed



subsection \<open>The spinning dequeue among other threads\<close>

lemma mcDequeue_spin_among_taken:
  "q_tail s = Some t \<Longrightarrow> mcDequeue_spin_among others s = Some (Some t, s\<lparr>q_tail := None\<rparr>)"
  by (subst mcDequeue_spin_among.simps) (simp add: tail_exchange_def)



lemma mcDequeue_spin_among_alone:
  "mcDequeue_spin_among (\<lambda>s. s) s = mcDequeue_spin s"
proof (cases "q_tail s")
  case None
  have "mcDequeue_spin_among (\<lambda>s. s) s = None"
  proof (cases "mcDequeue_spin_among (\<lambda>s. s) s")
    case (Some r)
    have "q_tail s \<noteq> None"
      by (rule mcDequeue_spin_among.raw_induct[where P = "\<lambda>others s r. others = (\<lambda>s. s) \<longrightarrow> q_tail s \<noteq> None",
            OF _ Some, rule_format])
         (fastforce simp: tail_exchange_def split: option.splits)+
    with None show ?thesis by simp
  qed simp
  with None show ?thesis by (simp add: mcDequeue_spin_held)
next
  case (Some t)
  then show ?thesis by (simp add: mcDequeue_spin_among_taken mcDequeue_spin_taken)
qed

lemma mcDequeue_among_alone: "mcDequeue_among (\<lambda>s. s) out s = mcDequeue out s"
  by (simp add: mcDequeue_among_def mcDequeue_def mcDequeue_spin_among_alone)


subsection \<open>Scans whose failed polls may change a subqueue\<close>





subsection \<open>The two passes of the multi-consumer dequeue\<close>











subsection \<open>Producer routing\<close>

text \<open>
  What holds of the routing: the overloads with an index enqueue to exactly that
  subqueue, whichever of \<open>sp_enqueue\<close> and \<open>mp_enqueue\<close> is called; the first call of one
  enqueue function by a thread takes the counter modulo the number of subqueues and
  increments the counter; later calls of the same function by that thread reuse the index;
  and \<open>sp_enqueue\<close> and \<open>mp_enqueue\<close> change the queue alike in a state where the
  thread's two variables \<open>indx\<close> agree.
\<close>

lemma enqueue_index_same:
  "sp_enqueue_index input index t q = mp_enqueue_index input index t q"
  by (simp add: sp_enqueue_index_def mp_enqueue_index_def sp_enqueue_forward_index_def
      mp_enqueue_forward_index_def)

lemma enqueue_index_subqueue:
  assumes "index < length (q_vec q)"
  shows "mp_enqueue_index input index t q =
      map_option (\<lambda>sq. (t, q\<lparr>q_vec := (q_vec q)[index := sq]\<rparr>)) (mpEnqueue input (q_vec q ! index))"
  using assms
  by (cases "mpEnqueue input (q_vec q ! index)")
     (simp_all add: mp_enqueue_index_def mp_enqueue_forward_index_def subqueue_mp_enqueue_def
        list_queue_mp_enqueue_def)

lemma mp_enqueue_first_call:
  assumes "mp_indx t U = None" "0 < length (q_vec q)"
  shows "mp_enqueue U input t q =
      map_option (\<lambda>q'. (t\<lparr>mp_indx := (mp_indx t)(U := Some (unat (enqueue_indx q) mod length (q_vec q)))\<rparr>, q'))
        (subqueue_mp_enqueue (unat (enqueue_indx q) mod length (q_vec q)) input
           (q\<lparr>enqueue_indx := enqueue_indx q + 1\<rparr>))"
  using assms
  by (cases "subqueue_mp_enqueue (unat (enqueue_indx q) mod length (q_vec q)) input
           (q\<lparr>enqueue_indx := enqueue_indx q + 1\<rparr>)")
     (simp_all add: mp_enqueue_def mp_enqueue_forward_def next_indx_def)

lemma mp_enqueue_later_call:
  assumes "mp_indx t U = Some i"
  shows "mp_enqueue U input t q = map_option (Pair t) (subqueue_mp_enqueue i input q)"
proof -
  from assms have "t\<lparr>mp_indx := (mp_indx t)(U := Some i)\<rparr> = t"
    by (cases t) (simp add: fun_upd_idem)
  with assms show ?thesis
    by (cases "subqueue_mp_enqueue i input q") (simp_all add: mp_enqueue_def mp_enqueue_forward_def)
qed


lemma sp_mp_enqueue_same_queue:
  assumes "sp_indx t U = mp_indx t U"
  shows "map_option snd (sp_enqueue U input t q) = map_option snd (mp_enqueue U input t q)"
proof -
  let ?r = "case mp_indx t U of Some i \<Rightarrow> Some (i, q) | None \<Rightarrow> next_indx q"
  show ?thesis
  proof (cases ?r)
    case None
    with assms show ?thesis
      by (simp add: sp_enqueue_def mp_enqueue_def sp_enqueue_forward_def mp_enqueue_forward_def)
  next
    case (Some p)
    obtain indx q1 where p: "p = (indx, q1)" by (cases p) auto
    with Some assms show ?thesis
      by (cases "subqueue_mp_enqueue indx input q1")
         (simp_all add: sp_enqueue_def mp_enqueue_def sp_enqueue_forward_def mp_enqueue_forward_def)
  qed
qed

lemma two_subqueues:
  "multilist_vector_queue_new d 2 = \<lparr>q_vec = [MPMCQueue_new d, MPMCQueue_new d], enqueue_indx = 0\<rparr>"
  by (simp add: multilist_vector_queue_new_def numeral_2_eq_2)

lemma mod_two_subqueues: "(2::nat) mod Suc (Suc 0) = 0"
  by (simp add: numeral_2_eq_2)

text \<open>
  C7, at an input where the code departs from it. One thread on a queue of two subqueues
  calls \<open>mp_enqueue\<close> with an lvalue 1 and then \<open>mp_enqueue\<close> with an rvalue 2. The first
  call is assigned subqueue 0. The second call runs another specialisation of
  \<open>mp_enqueue_forward\<close>, whose \<open>indx\<close> this thread has not initialised: it increments the
  counter again and is assigned subqueue 1, so 1 ends in subqueue 0 and 2 in subqueue 1,
  where the claim has the thread reuse subqueue 0. A second thread that enqueues next is
  assigned subqueue 0, where the claim has the second producer thread on subqueue 1.
\<close>

theorem second_overload_second_subqueue:
  "(let q0 = multilist_vector_queue_new (0::int) 2;
        (t1, q1) = the (mp_enqueue Lvalue 1 thread_start q0);
        (t2, q2) = the (mp_enqueue Rvalue 2 t1 q1);
        (u1, q3) = the (mp_enqueue Lvalue 3 thread_start q2)
    in mp_indx t1 Lvalue = Some 0 \<and> enqueue_indx q1 = 1 \<and>
       mp_indx t2 Lvalue = Some 0 \<and> mp_indx t2 Rvalue = Some 1 \<and> enqueue_indx q2 = 2 \<and>
       map_option (\<lambda>(b, v, s). (b, v)) (scDequeue 0 (q_vec q2 ! 0)) = Some (True, 1) \<and>
       map_option (\<lambda>(b, v, s). (b, v)) (scDequeue 0 (q_vec q2 ! 1)) = Some (True, 2) \<and>
       mp_indx u1 Lvalue = Some 0)"
  by (simp add: two_subqueues subqueue_mp_enqueue_def list_queue_mp_enqueue_def next_indx_def
      ulq_eval mp_enqueue_def mp_enqueue_forward_def thread_start_def mod_two_subqueues) blast

text \<open>
  C9, at an input where the code departs from it. A thread has called \<open>sp_enqueue\<close> once
  on a queue of two subqueues. In that state \<open>sp_enqueue\<close> of 2 reuses subqueue 0 and
  leaves the counter at 1, while \<open>mp_enqueue\<close> of 2 increments the counter to 2 and puts
  2 into subqueue 1: the two calls transform the state differently.
\<close>

theorem sp_enqueue_differs_from_mp_enqueue:
  "(let q0 = multilist_vector_queue_new (0::int) 2;
        (t1, q1) = the (sp_enqueue Lvalue 1 thread_start q0);
        (ts, qs) = the (sp_enqueue Lvalue 2 t1 q1);
        (tm, qm) = the (mp_enqueue Lvalue 2 t1 q1)
    in enqueue_indx q1 = 1 \<and> enqueue_indx qs = 1 \<and> enqueue_indx qm = 2 \<and>
       map_option (\<lambda>(b, v, s). (b, v)) (scDequeue 0 (q_vec qs ! 1)) = Some (False, 0) \<and>
       map_option (\<lambda>(b, v, s). (b, v)) (scDequeue 0 (q_vec qm ! 1)) = Some (True, 2))"
  by (simp add: two_subqueues subqueue_mp_enqueue_def list_queue_mp_enqueue_def next_indx_def
      ulq_eval sp_enqueue_def sp_enqueue_forward_def mp_enqueue_def
      mp_enqueue_forward_def thread_start_def mod_two_subqueues) blast

end
